theory Spec2Isabelle
  imports Complex_Main "HOL-Library.Word" "HOL-Library.Log_Nat"
begin

unbundle bit_operations_syntax

section \<open>Python values used by the icon generator\<close>

text \<open>
  The script \<^verbatim>\<open>icons/generate-icons-from-svg.py\<close> works on Python integers
  (unbounded, modelled as \<open>int\<close>), on \<^verbatim>\<open>bytes\<close>/\<^verbatim>\<open>bytearray\<close> values (lists of
  8-bit words) and on a few double-precision floats. Every exception the script can
  raise is a value of \<open>py_error\<close>.
\<close>

type_synonym byte = "8 word"

datatype py_error = StructError | IndexError | ValueError | OverflowError | ZeroDivisionError

definition bind_err :: "py_error + 'a \<Rightarrow> ('a \<Rightarrow> py_error + 'b) \<Rightarrow> py_error + 'b" where
  "bind_err m f = (case m of Inl e \<Rightarrow> Inl e | Inr v \<Rightarrow> f v)"

text \<open>\<^verbatim>\<open>range(a, b)\<close> over integers.\<close>

definition py_range :: "int \<Rightarrow> int \<Rightarrow> int list" where
  "py_range a b = [a..b - 1]"

text \<open>
  A slice bound \<open>i\<close> on a sequence of length \<open>n\<close>: negative bounds count from the end,
  and every bound is clamped to \<open>0..n\<close>.
\<close>

definition slice_bound :: "nat \<Rightarrow> int \<Rightarrow> nat" where
  "slice_bound n i = (if i < 0 then nat (max 0 (i + int n)) else min (nat i) n)"

text \<open>\<^verbatim>\<open>xs[a:b]\<close>: never raises.\<close>

definition slice :: "'a list \<Rightarrow> int \<Rightarrow> int \<Rightarrow> 'a list" where
  "slice xs a b =
     (let lo = slice_bound (length xs) a; hi = slice_bound (length xs) b
      in take (hi - lo) (drop lo xs))"

text \<open>
  \<^verbatim>\<open>xs[a:b] = ys\<close> on a bytearray: the slice is replaced by \<open>ys\<close> whatever the two
  lengths are (an empty slice when the upper bound is below the lower one), so the
  sequence can grow or shrink. Never raises.
\<close>

definition slice_assign :: "'a list \<Rightarrow> int \<Rightarrow> int \<Rightarrow> 'a list \<Rightarrow> 'a list" where
  "slice_assign xs a b ys =
     (let lo = slice_bound (length xs) a; hi = max lo (slice_bound (length xs) b)
      in take lo xs @ ys @ drop hi xs)"

text \<open>\<^verbatim>\<open>xs[i]\<close>: negative indices count from the end, IndexError out of range.\<close>

definition get_item :: "'a list \<Rightarrow> int \<Rightarrow> py_error + 'a" where
  "get_item xs i =
     (let n = int (length xs); j = (if i < 0 then i + n else i)
      in if 0 \<le> j \<and> j < n then Inr (xs ! nat j) else Inl IndexError)"

text \<open>
  \<^verbatim>\<open>xs[i] = v\<close> on a bytearray, \<open>v\<close> a Python integer: IndexError when \<open>i\<close> is out of
  range, then ValueError unless \<open>0 \<le> v < 256\<close>.
\<close>

definition set_item :: "byte list \<Rightarrow> int \<Rightarrow> int \<Rightarrow> py_error + byte list" where
  "set_item xs i v =
     (let n = int (length xs); j = (if i < 0 then i + n else i)
      in if \<not> (0 \<le> j \<and> j < n) then Inl IndexError
         else if \<not> (0 \<le> v \<and> v < 256) then Inl ValueError
         else Inr (xs[nat j := word_of_int v]))"

section \<open>The PNG encoder\<close>

text \<open>
  \<^verbatim>\<open>struct.pack('>I', n)\<close>: four bytes, most significant first; struct.error unless
  \<open>0 \<le> n < 2^32\<close>.
\<close>

definition be32 :: "32 word \<Rightarrow> byte list" where
  "be32 w = [ucast (drop_bit 24 w), ucast (drop_bit 16 w), ucast (drop_bit 8 w), ucast w]"

definition pack_I :: "int \<Rightarrow> py_error + byte list" where
  "pack_I n = (if 0 \<le> n \<and> n < 2 ^ 32 then Inr (be32 (word_of_int n)) else Inl StructError)"

text \<open>\<^verbatim>\<open>struct.pack('>IIBBBBB', width, height, 8, 6, 0, 0, 0)\<close>.\<close>

definition pack_IIBBBBB :: "int \<Rightarrow> int \<Rightarrow> py_error + byte list" where
  "pack_IIBBBBB width height =
     bind_err (pack_I width) (\<lambda>w4.
     bind_err (pack_I height) (\<lambda>h4.
     Inr (w4 @ h4 @ [8, 6, 0, 0, 0])))"

text \<open>
  The module \<^verbatim>\<open>zlib\<close> is not part of the repository. The encoder is modelled over
  any implementation of it: \<open>compress\<close> is \<^verbatim>\<open>zlib.compress(data, 9)\<close>, \<open>crc32\<close> is
  \<^verbatim>\<open>zlib.crc32\<close> (an unsigned 32-bit integer in Python 3) and \<open>decompress\<close> is
  \<^verbatim>\<open>zlib.decompress\<close>, which the script does not call and which only serves to
  state what the compressed payload stands for.
\<close>

record zlib =
  compress :: "byte list \<Rightarrow> byte list"
  decompress :: "byte list \<Rightarrow> byte list"
  crc32 :: "byte list \<Rightarrow> 32 word"

definition zlib_roundtrip :: "zlib \<Rightarrow> bool" where
  "zlib_roundtrip Z = (\<forall>d. decompress Z (compress Z d) = d)"

definition bytes_of :: "string \<Rightarrow> byte list" where
  "bytes_of s = map (\<lambda>c. of_char c) s"

definition signature :: "byte list" where
  "signature = [0x89, 0x50, 0x4E, 0x47, 0x0D, 0x0A, 0x1A, 0x0A]"

text \<open>The body of the loop over \<open>x\<close>, then of the loop over \<open>y\<close>, of \<^verbatim>\<open>create_png\<close>.\<close>

definition raw_pixel :: "int \<Rightarrow> byte list \<Rightarrow> int \<Rightarrow> byte list \<Rightarrow> int \<Rightarrow> byte list" where
  "raw_pixel width pixels y raw_data x =
     (let idx = (y * width + x) * 4 in raw_data @ slice pixels idx (idx + 4))"

definition raw_row :: "int \<Rightarrow> byte list \<Rightarrow> byte list \<Rightarrow> int \<Rightarrow> byte list" where
  "raw_row width pixels raw_data y =
     foldl (raw_pixel width pixels y) (raw_data @ [0]) (py_range 0 width)"

definition create_png :: "zlib \<Rightarrow> int \<Rightarrow> int \<Rightarrow> byte list \<Rightarrow> py_error + byte list" where
  "create_png Z width height pixels =
     bind_err (pack_IIBBBBB width height) (\<lambda>ihdr_data.
     let ihdr_crc = crc32 Z (bytes_of ''IHDR'' @ ihdr_data) in
     bind_err (pack_I 13) (\<lambda>ihdr_len.
     bind_err (pack_I (uint ihdr_crc)) (\<lambda>ihdr_crc4.
     let ihdr_chunk = ihdr_len @ bytes_of ''IHDR'' @ ihdr_data @ ihdr_crc4;
         raw_data = foldl (raw_row width pixels) [] (py_range 0 height);
         compressed = compress Z raw_data;
         idat_crc = crc32 Z (bytes_of ''IDAT'' @ compressed) in
     bind_err (pack_I (int (length compressed))) (\<lambda>idat_len.
     bind_err (pack_I (uint idat_crc)) (\<lambda>idat_crc4.
     let idat_chunk = idat_len @ bytes_of ''IDAT'' @ compressed @ idat_crc4;
         iend_crc = crc32 Z (bytes_of ''IEND'') in
     bind_err (pack_I 0) (\<lambda>iend_len.
     bind_err (pack_I (uint iend_crc)) (\<lambda>iend_crc4.
     let iend_chunk = iend_len @ bytes_of ''IEND'' @ iend_crc4 in
     Inr (signature @ ihdr_chunk @ idat_chunk @ iend_chunk))))))))"

subsection \<open>The layout the specification describes\<close>

text \<open>
  A chunk as the specification words it: 4-byte big-endian payload length, 4-byte type
  tag, payload, 4-byte big-endian CRC32 over tag and payload.
\<close>

definition spec_chunk :: "zlib \<Rightarrow> string \<Rightarrow> byte list \<Rightarrow> byte list" where
  "spec_chunk Z tag payload =
     be32 (word_of_nat (length payload)) @ bytes_of tag @ payload
       @ be32 (crc32 Z (bytes_of tag @ payload))"

text \<open>The IHDR payload: width, height, bit depth 8, colour type 6, then three zeros.\<close>

definition spec_ihdr :: "int \<Rightarrow> int \<Rightarrow> byte list" where
  "spec_ihdr width height =
     be32 (word_of_int width) @ be32 (word_of_int height) @ [8, 6, 0, 0, 0]"

text \<open>
  The scanlines in row order: row \<open>y\<close> is the filter byte 0 followed by the
  \<open>4 * width\<close> bytes of the buffer that start at \<open>4 * width * y\<close>.
\<close>

definition spec_scanlines :: "nat \<Rightarrow> nat \<Rightarrow> byte list \<Rightarrow> byte list" where
  "spec_scanlines w h pixels =
     concat (map (\<lambda>y. 0 # take (4 * w) (drop (4 * w * y) pixels)) [0..<h])"

section \<open>Double-precision arithmetic\<close>

text \<open>
  A finite Python float is modelled by the rational number it denotes. \<open>fl x\<close> is
  the double nearest to \<open>x\<close> (ties to the even significand, 53 bits, smallest quantum
  \<open>2^-1074\<close>), with the exponent unbounded above: a result of magnitude \<open>2^1024\<close> or
  more stands for an infinity. \<open>ilog2 x\<close> is the binary exponent of a nonzero \<open>x\<close>,
  the \<open>e\<close> with \<open>2^e \<le> \<bar>x\<bar> < 2^(e+1)\<close>. The script hands every float it computes from
  unbounded integers to \<^verbatim>\<open>int()\<close>, which raises OverflowError on an infinity.
\<close>

definition ilog2 :: "rat \<Rightarrow> int" where
  "ilog2 x =
     (case quotient_of \<bar>x\<bar> of (p, q) \<Rightarrow>
        let d = bitlen p - bitlen q in if 2 powi d \<le> \<bar>x\<bar> then d else d - 1)"

definition round_half_even :: "rat \<Rightarrow> int" where
  "round_half_even y =
     (let f = \<lfloor>y\<rfloor>; r = y - of_int f
      in if r < 1 / 2 then f else if 1 / 2 < r then f + 1 else if even f then f else f + 1)"

definition fl :: "rat \<Rightarrow> rat" where
  "fl x =
     (if x = 0 then 0
      else let q = 2 powi (max (ilog2 x - 52) (- 1074))
           in of_int (round_half_even (x / q)) * q)"

text \<open>\<open>x\<close> stands for an infinity: its binary exponent is 1024 or more.\<close>

definition is_inf :: "rat \<Rightarrow> bool" where
  "is_inf x = (1024 \<le> ilog2 x)"

text \<open>Conversion of an integer operand to float.\<close>

definition float_of_int :: "int \<Rightarrow> py_error + rat" where
  "float_of_int n = (let x = fl (of_int n) in if is_inf x then Inl OverflowError else Inr x)"

text \<open>\<^verbatim>\<open>a / b\<close> on two integers: the correctly rounded quotient.\<close>

definition true_div :: "int \<Rightarrow> int \<Rightarrow> py_error + rat" where
  "true_div a b =
     (if b = 0 then Inl ZeroDivisionError
      else let x = fl (of_int a / of_int b) in if is_inf x then Inl OverflowError else Inr x)"

definition fadd :: "rat \<Rightarrow> rat \<Rightarrow> rat" where
  "fadd a b = fl (a + b)"

definition fsub :: "rat \<Rightarrow> rat \<Rightarrow> rat" where
  "fsub a b = fl (a - b)"

definition fmul :: "rat \<Rightarrow> rat \<Rightarrow> rat" where
  "fmul a b = fl (a * b)"

definition fdiv :: "rat \<Rightarrow> rat \<Rightarrow> rat" where
  "fdiv a b = fl (a / b)"

text \<open>\<^verbatim>\<open>int(x)\<close> on a float: truncation toward zero.\<close>

definition py_int :: "rat \<Rightarrow> py_error + int" where
  "py_int x = (if is_inf x then Inl OverflowError else Inr (if 0 \<le> x then \<lfloor>x\<rfloor> else \<lceil>x\<rceil>))"

text \<open>\<^verbatim>\<open>int(n * c)\<close> for an integer \<open>n\<close> and a float \<open>c\<close>.\<close>

definition scaled :: "int \<Rightarrow> rat \<Rightarrow> py_error + int" where
  "scaled n c = bind_err (float_of_int n) (\<lambda>f. py_int (fmul f c))"

section \<open>The rasterizer\<close>

type_synonym point = "int \<times> int"

text \<open>A loop whose body can raise.\<close>

fun fold_err :: "('s \<Rightarrow> 'a \<Rightarrow> py_error + 's) \<Rightarrow> 's \<Rightarrow> 'a list \<Rightarrow> py_error + 's" where
  "fold_err f s [] = Inr s"
| "fold_err f s (x # xs) = (case f s x of Inl e \<Rightarrow> Inl e | Inr s' \<Rightarrow> fold_err f s' xs)"

text \<open>
  The pixel at column \<open>x\<close> of row \<open>y\<close>: the four bytes both drawing functions address as
  \<^verbatim>\<open>pixels[idx:idx+4]\<close> with \<^verbatim>\<open>idx = (y * width + x) * 4\<close>.
\<close>

definition pixel_at :: "int \<Rightarrow> byte list \<Rightarrow> int \<Rightarrow> int \<Rightarrow> byte list" where
  "pixel_at width pixels x y = (let idx = (y * width + x) * 4 in slice pixels idx (idx + 4))"

subsection \<open>\<^verbatim>\<open>draw_circle\<close>\<close>

text \<open>
  The coordinates at which \<^verbatim>\<open>draw_circle\<close> reaches its assignment, in the order of
  the two loops: rows outside, columns inside, the distance test as a filter.
\<close>

definition circle_coords :: "int \<Rightarrow> int \<Rightarrow> int \<Rightarrow> int \<Rightarrow> int \<Rightarrow> point list" where
  "circle_coords width height cx cy radius =
     concat (map (\<lambda>y.
       filter (\<lambda>(x, y). let dx = x - cx; dy = y - cy in dx * dx + dy * dy \<le> radius * radius)
         (map (\<lambda>x. (x, y)) (py_range (max 0 (cx - radius)) (min width (cx + radius + 1)))))
       (py_range (max 0 (cy - radius)) (min height (cy + radius + 1))))"

definition put_pixel :: "int \<Rightarrow> byte list \<Rightarrow> byte list \<Rightarrow> point \<Rightarrow> byte list" where
  "put_pixel width color pixels p =
     (case p of (x, y) \<Rightarrow> let idx = (y * width + x) * 4 in slice_assign pixels idx (idx + 4) color)"

definition draw_circle ::
  "byte list \<Rightarrow> int \<Rightarrow> int \<Rightarrow> int \<Rightarrow> int \<Rightarrow> int \<Rightarrow> byte list \<Rightarrow> byte list" where
  "draw_circle pixels width height cx cy radius color =
     foldl (put_pixel width color) pixels (circle_coords width height cx cy radius)"

subsection \<open>\<^verbatim>\<open>draw_triangle\<close>\<close>

text \<open>One edge at scanline \<open>y\<close>: nothing for a horizontal or inactive edge.\<close>

definition edge_x :: "int \<Rightarrow> point \<times> point \<Rightarrow> py_error + int list" where
  "edge_x y e =
     (case e of (p1, p2) \<Rightarrow>
        if snd p1 = snd p2 then Inr []
        else if y < min (snd p1) (snd p2) \<or> y > max (snd p1) (snd p2) then Inr []
        else bind_err (true_div (y - snd p1) (snd p2 - snd p1)) (\<lambda>t.
             bind_err (float_of_int (fst p2 - fst p1)) (\<lambda>d.
             bind_err (float_of_int (fst p1)) (\<lambda>x1.
             bind_err (py_int (fadd x1 (fmul t d))) (\<lambda>x. Inr [x])))))"

definition x_intersections :: "int \<Rightarrow> (point \<times> point) list \<Rightarrow> py_error + int list" where
  "x_intersections y edges =
     fold_err (\<lambda>acc e. bind_err (edge_x y e) (\<lambda>xs. Inr (acc @ xs))) [] edges"

text \<open>
  The columns blended on scanline \<open>y\<close>, for the sorted vertices \<open>p0\<close>, \<open>p1\<close>, \<open>p2\<close>.
\<close>

definition row_span :: "int \<Rightarrow> point \<Rightarrow> point \<Rightarrow> point \<Rightarrow> int \<Rightarrow> py_error + int list" where
  "row_span width p0 p1 p2 y =
     bind_err (x_intersections y [(p0, p1), (p1, p2), (p2, p0)]) (\<lambda>xi.
       if length xi \<ge> 2
       then let s = sort xi in Inr (py_range (max 0 (hd s)) (min width (last s + 1)))
       else Inr [])"

text \<open>
  \<^verbatim>\<open>int(existing[k] * (1 - alpha) + color[k] * alpha)\<close> for two byte values; the
  integers are converted to float where they meet one.
\<close>

definition blend_channel :: "byte \<Rightarrow> byte \<Rightarrow> rat \<Rightarrow> py_error + int" where
  "blend_channel e c alpha =
     bind_err (float_of_int (uint e)) (\<lambda>fe.
     bind_err (float_of_int 1) (\<lambda>one.
     bind_err (float_of_int (uint c)) (\<lambda>fc.
     py_int (fadd (fmul fe (fsub one alpha)) (fmul fc alpha)))))"

text \<open>The body of the loop over \<open>x\<close>.\<close>

definition blend_pixel :: "int \<Rightarrow> byte list \<Rightarrow> int \<Rightarrow> byte list \<Rightarrow> int \<Rightarrow> py_error + byte list" where
  "blend_pixel width color y pixels x =
     (let idx = (y * width + x) * 4; existing = slice pixels idx (idx + 4) in
      bind_err (get_item color 3) (\<lambda>a.
      bind_err (float_of_int (uint a)) (\<lambda>fa.
      let alpha = fdiv fa 255 in
      bind_err (get_item existing 0) (\<lambda>e0.
      bind_err (get_item color 0) (\<lambda>c0.
      bind_err (blend_channel e0 c0 alpha) (\<lambda>v0.
      bind_err (set_item pixels idx v0) (\<lambda>pixels.
      bind_err (get_item existing 1) (\<lambda>e1.
      bind_err (get_item color 1) (\<lambda>c1.
      bind_err (blend_channel e1 c1 alpha) (\<lambda>v1.
      bind_err (set_item pixels (idx + 1) v1) (\<lambda>pixels.
      bind_err (get_item existing 2) (\<lambda>e2.
      bind_err (get_item color 2) (\<lambda>c2.
      bind_err (blend_channel e2 c2 alpha) (\<lambda>v2.
      bind_err (set_item pixels (idx + 2) v2) (\<lambda>pixels.
      bind_err (get_item existing 3) (\<lambda>e3.
      bind_err (get_item color 3) (\<lambda>c3.
      set_item pixels (idx + 3) (max (uint e3) (uint c3)))))))))))))))))))"

text \<open>The body of the loop over \<open>y\<close>.\<close>

definition scan_row ::
  "int \<Rightarrow> int \<Rightarrow> point \<Rightarrow> point \<Rightarrow> point \<Rightarrow> byte list \<Rightarrow> byte list \<Rightarrow> int
     \<Rightarrow> py_error + byte list" where
  "scan_row width height p0 p1 p2 color pixels y =
     (if y < 0 \<or> y \<ge> height then Inr pixels
      else bind_err (row_span width p0 p1 p2 y) (\<lambda>xs.
             fold_err (blend_pixel width color y) pixels xs))"

definition draw_triangle ::
  "byte list \<Rightarrow> int \<Rightarrow> int \<Rightarrow> point list \<Rightarrow> byte list \<Rightarrow> py_error + byte list" where
  "draw_triangle pixels width height points color =
     (let points = sort_key snd points in
      bind_err (get_item points 2) (\<lambda>p2.
      bind_err (get_item points 0) (\<lambda>p0.
      if snd p2 = snd p0 then Inr pixels
      else bind_err (get_item points 1) (\<lambda>p1.
           fold_err (scan_row width height p0 p1 p2 color) pixels
             (py_range (snd p0) (snd p2 + 1))))))"

text \<open>
  The coordinates at which \<^verbatim>\<open>draw_triangle\<close> reaches its innermost loop body, in the
  order of the two loops; a scanline whose intersections cannot be computed
  contributes none (the call raises there).
\<close>

definition row_coords :: "int \<Rightarrow> int \<Rightarrow> point \<Rightarrow> point \<Rightarrow> point \<Rightarrow> int \<Rightarrow> point list" where
  "row_coords width height p0 p1 p2 y =
     (if y < 0 \<or> y \<ge> height then []
      else case row_span width p0 p1 p2 y of Inl e \<Rightarrow> [] | Inr xs \<Rightarrow> map (\<lambda>x. (x, y)) xs)"

definition triangle_coords :: "int \<Rightarrow> int \<Rightarrow> point list \<Rightarrow> point list" where
  "triangle_coords width height points =
     (let points = sort_key snd points in
      if length points < 3 \<or> snd (points ! 2) = snd (points ! 0) then []
      else concat (map (row_coords width height (points ! 0) (points ! 1) (points ! 2))
                     (py_range (snd (points ! 0)) (snd (points ! 2) + 1))))"

subsection \<open>The blending rule the specification describes\<close>

text \<open>
  \<open>existing * (1 - a) + color * a\<close> truncated to an integer, with \<open>a = A / 255\<close>: once
  with every operation rounded to double precision, as Python evaluates it, and once
  in exact arithmetic.
\<close>

definition blend_value :: "byte \<Rightarrow> byte \<Rightarrow> byte \<Rightarrow> int" where
  "blend_value existing color A =
     (let a = fdiv (of_int (uint A)) 255
      in \<lfloor>fadd (fmul (of_int (uint existing)) (fsub 1 a)) (fmul (of_int (uint color)) a)\<rfloor>)"

definition exact_blend_value :: "byte \<Rightarrow> byte \<Rightarrow> byte \<Rightarrow> int" where
  "exact_blend_value existing color A =
     (let a = (of_int (uint A) :: rat) / 255
      in \<lfloor>of_int (uint existing) * (1 - a) + of_int (uint color) * a\<rfloor>)"

text \<open>The blended pixel: three blended channels and the larger of the two alphas.\<close>

definition blended :: "byte list \<Rightarrow> byte list \<Rightarrow> byte list" where
  "blended existing color =
     [word_of_int (blend_value (existing ! 0) (color ! 0) (color ! 3)),
      word_of_int (blend_value (existing ! 1) (color ! 1) (color ! 3)),
      word_of_int (blend_value (existing ! 2) (color ! 2) (color ! 3)),
      max (existing ! 3) (color ! 3)]"

section \<open>The icon composer\<close>

text \<open>
  The drawing calls of a composition routine, in the order the routine makes them. The
  parameter \<^verbatim>\<open>size\<close> is written \<open>sz\<close>.
\<close>

datatype shape = Circle int int int "byte list" | Triangle "point list" "byte list"


fun is_triangle :: "shape \<Rightarrow> bool" where
  "is_triangle (Triangle points color) = True"
| "is_triangle (Circle cx cy radius color) = False"



text \<open>The play arrow of \<^verbatim>\<open>create_icon\<close> (the body of \<^verbatim>\<open>if size >= 32\<close>).\<close>

definition arrow_shapes :: "int \<Rightarrow> py_error + shape list" where
  "arrow_shapes sz =
     (let center = sz div 2 in
      bind_err (scaled sz (fl (2 / 10))) (\<lambda>arrow_size.
      let left = center - arrow_size; right = center + arrow_size in
      bind_err (scaled arrow_size (fl (7 / 10))) (\<lambda>up.
      let top = center - up in
      bind_err (scaled arrow_size (fl (7 / 10))) (\<lambda>down.
      let bottom = center + down in
      Inr [Triangle [(left, top), (left, bottom), (right, center)] [0xff, 0xff, 0xff, 0xb0]]))))"

text \<open>The four corner dots (the body of \<^verbatim>\<open>if size >= 48\<close>), in colour \<open>color\<close>.\<close>

definition dot_shapes :: "int \<Rightarrow> byte list \<Rightarrow> py_error + shape list" where
  "dot_shapes sz color =
     (let dot_radius = max 2 (sz div 25) in
      bind_err (scaled sz (fl (23 / 100))) (\<lambda>margin.
      Inr [Circle margin margin dot_radius color,
           Circle (sz - margin) margin dot_radius color,
           Circle margin (sz - margin) dot_radius color,
           Circle (sz - margin) (sz - margin) dot_radius color]))"

definition icon_shapes :: "int \<Rightarrow> py_error + shape list" where
  "icon_shapes sz =
     (let center = sz div 2 in
      bind_err (scaled sz (fl (47 / 100))) (\<lambda>r1.
      bind_err (scaled sz (fl (45 / 100))) (\<lambda>r2.
      bind_err (scaled sz (fl (42 / 100))) (\<lambda>r3.
      bind_err (scaled sz (fl (15 / 100))) (\<lambda>r4.
      bind_err (if sz \<ge> 32 then arrow_shapes sz else Inr []) (\<lambda>arrow.
      bind_err (if sz \<ge> 48 then dot_shapes sz [0x10, 0xb9, 0x81, 0xff] else Inr []) (\<lambda>dots.
      Inr ([Circle center center r1 [0x1e, 0x40, 0xaf, 0xff],
            Circle center center r2 [0x3b, 0x82, 0xf6, 0xff],
            Circle center center r3 [0x1e, 0x40, 0xaf, 0xff],
            Circle center center r4 [0xef, 0x44, 0x44, 0xff]] @ arrow @ dots))))))))"

text \<open>The white centre dot of \<^verbatim>\<open>create_recording_icon\<close> (the body of \<^verbatim>\<open>if size >= 32\<close>).\<close>

definition indicator_shapes :: "int \<Rightarrow> py_error + shape list" where
  "indicator_shapes sz =
     (let center = sz div 2 in
      bind_err (scaled sz (fl (8 / 100))) (\<lambda>r.
      Inr [Circle center center r [0xff, 0xff, 0xff, 0xff]]))"

definition recording_shapes :: "int \<Rightarrow> py_error + shape list" where
  "recording_shapes sz =
     (let center = sz div 2 in
      bind_err (scaled sz (fl (47 / 100))) (\<lambda>r1.
      bind_err (scaled sz (fl (45 / 100))) (\<lambda>r2.
      bind_err (scaled sz (fl (42 / 100))) (\<lambda>r3.
      bind_err (scaled sz (fl (2 / 10))) (\<lambda>r4.
      bind_err (if sz \<ge> 32 then indicator_shapes sz else Inr []) (\<lambda>indicator.
      bind_err (if sz \<ge> 48 then dot_shapes sz [0xef, 0x44, 0x44, 0xff] else Inr []) (\<lambda>dots.
      Inr ([Circle center center r1 [0x7f, 0x1d, 0x1d, 0xff],
            Circle center center r2 [0xef, 0x44, 0x44, 0xff],
            Circle center center r3 [0x7f, 0x1d, 0x1d, 0xff],
            Circle center center r4 [0xff, 0x00, 0x00, 0xff]] @ indicator @ dots))))))))"




section \<open>The script\<close>




definition sizes :: "int list" where
  "sizes = [16, 32, 48, 128]"



section \<open>A reference zlib\<close>

text \<open>
  An implementation of the three \<^verbatim>\<open>zlib\<close> functions on which the encoder can be
  run: the CRC-32 of the PNG standard, and a compressor that emits one stored
  (uncompressed) deflate block in a zlib wrapper, with its Adler-32 checksum.
\<close>

definition crc_step :: "32 word \<Rightarrow> 32 word" where
  "crc_step c = (if bit c 0 then drop_bit 1 c XOR 0xEDB88320 else drop_bit 1 c)"

definition crc_byte :: "32 word \<Rightarrow> byte \<Rightarrow> 32 word" where
  "crc_byte c b = (crc_step ^^ 8) (c XOR ucast b)"

definition crc32_png :: "byte list \<Rightarrow> 32 word" where
  "crc32_png bs = NOT (foldl crc_byte (NOT 0) bs)"

definition adler32 :: "byte list \<Rightarrow> 32 word" where
  "adler32 bs =
     (case foldl (\<lambda>(a, b) x. let a' = (a + unat x) mod 65521 in (a', (b + a') mod 65521))
             (1, 0) bs
      of (a, b) \<Rightarrow> word_of_nat (b * 65536 + a))"

definition le16 :: "16 word \<Rightarrow> byte list" where
  "le16 w = [ucast w, ucast (drop_bit 8 w)]"

definition deflate_stored :: "byte list \<Rightarrow> byte list" where
  "deflate_stored d =
     [0x78, 0x01, 0x01] @ le16 (word_of_nat (length d)) @ le16 (NOT (word_of_nat (length d)))
       @ d @ be32 (adler32 d)"

definition inflate_stored :: "byte list \<Rightarrow> byte list" where
  "inflate_stored z = take (length z - 11) (drop 7 z)"

definition stored_zlib :: zlib where
  "stored_zlib = \<lparr>compress = deflate_stored, decompress = inflate_stored, crc32 = crc32_png\<rparr>"
section \<open>Properties of the PNG encoder\<close>

lemma py_range_nat: "py_range 0 n = map int [0..<nat n]"
proof (cases "0 \<le> n")
  case True
  then obtain k where k: "n = int k" using nonneg_int_cases by blast
  have "[0..int k - 1] = map int [0..<k]"
  proof (induction k)
    case 0 show ?case by simp
  next
    case (Suc k)
    have "[0..int (Suc k) - 1] = [0..int k - 1] @ [int k]"
      using upto_rec2[of 0 "int k"] by simp
    then show ?case using Suc by simp
  qed
  then show ?thesis by (simp add: py_range_def k)
next
  case False
  then show ?thesis by (simp add: py_range_def)
qed

lemma slice_nonneg:
  "0 \<le> a \<Longrightarrow> a \<le> b \<Longrightarrow> slice xs a b = take (nat (b - a)) (drop (nat a) xs)"
  by (auto simp: slice_def slice_bound_def Let_def min_def nat_diff_distrib)

lemma slice_nat4: "slice xs (int n) (int n + 4) = take 4 (drop n xs)"
  using slice_nonneg[of "int n" "int n + 4" xs] by simp

lemma raw_pixel_nat:
  "raw_pixel (int w) pixels (int y) acc (int k) = acc @ take 4 (drop (4 * (y * w + k)) pixels)"
proof -
  have "(int y * int w + int k) * 4 = int (4 * (y * w + k))" by simp
  then show ?thesis
    unfolding raw_pixel_def Let_def by (simp only: slice_nat4)
qed

lemma raw_pixels_fold:
  "foldl (raw_pixel (int w) pixels (int y)) acc (map int [0..<k])
     = acc @ take (4 * k) (drop (4 * (y * w)) pixels)"
proof (induction k)
  case 0 show ?case by simp
next
  case (Suc k)
  have "take (4 * k + 4) (drop (4 * (y * w)) pixels)
        = take (4 * k) (drop (4 * (y * w)) pixels) @ take 4 (drop (4 * k) (drop (4 * (y * w)) pixels))"
    by (rule take_add)
  then have "take (4 * Suc k) (drop (4 * (y * w)) pixels)
        = take (4 * k) (drop (4 * (y * w)) pixels) @ take 4 (drop (4 * (y * w + k)) pixels)"
    by (simp add: add.commute distrib_left)
  with Suc show ?case by (simp add: raw_pixel_nat)
qed

lemma raw_row_eq:
  "raw_row (int w) pixels acc (int y) = acc @ 0 # take (4 * w) (drop (4 * w * y) pixels)"
proof -
  from raw_pixels_fold[of w pixels y "acc @ [0]" w]
  have "raw_row (int w) pixels acc (int y) = acc @ 0 # take (4 * w) (drop (4 * (y * w)) pixels)"
    by (simp add: raw_row_def py_range_nat)
  moreover have "4 * (y * w) = 4 * w * y" by simp
  ultimately show ?thesis by simp
qed

lemma raw_rows_fold:
  "foldl (raw_row (int w) pixels) acc (map int [0..<h]) = acc @ spec_scanlines w h pixels"
proof (induction h arbitrary: acc)
  case 0 show ?case by (simp add: spec_scanlines_def)
next
  case (Suc h)
  show ?case using Suc.IH raw_row_eq
    by (simp add: spec_scanlines_def)
qed

lemma raw_data_scanlines:
  "foldl (raw_row width pixels) [] (py_range 0 height)
     = spec_scanlines (nat width) (nat height) pixels" if "0 \<le> width"
proof -
  have w: "width = int (nat width)" using that by simp
  have "foldl (raw_row (int (nat width)) pixels) [] (map int [0..<nat height])
        = [] @ spec_scanlines (nat width) (nat height) pixels"
    by (rule raw_rows_fold)
  then show ?thesis using w by (simp add: py_range_nat)
qed

lemma length_spec_scanlines:
  "4 * w * h \<le> length pixels \<Longrightarrow> length (spec_scanlines w h pixels) = h * (4 * w + 1)"
proof (induction h)
  case 0 show ?case by (simp add: spec_scanlines_def)
next
  case (Suc h)
  then have "4 * w * h + 4 * w \<le> length pixels" by simp
  then have "length (take (4 * w) (drop (4 * w * h) pixels)) = 4 * w" by simp
  moreover have "spec_scanlines w (Suc h) pixels
      = spec_scanlines w h pixels @ 0 # take (4 * w) (drop (4 * w * h) pixels)"
    by (simp add: spec_scanlines_def)
  ultimately show ?case using Suc by simp
qed

lemma pack_I_uint: "pack_I (uint (c :: 32 word)) = Inr (be32 c)"
proof -
  have "uint c < 2 ^ 32" using uint_bounded[of c] by simp
  then show ?thesis by (simp add: pack_I_def)
qed

lemma pack_I_13: "pack_I 13 = Inr (be32 13)"
  by (simp add: pack_I_def)

lemma pack_I_0: "pack_I 0 = Inr (be32 0)"
  by (simp add: pack_I_def)

lemma pack_I_Inr: "pack_I n = Inr bs \<Longrightarrow> 0 \<le> n \<and> n < 2 ^ 32 \<and> bs = be32 (word_of_int n)"
  by (auto simp: pack_I_def split: if_splits)

lemma pack_IIBBBBB_Inr:
  "pack_IIBBBBB width height = Inr d \<Longrightarrow>
     0 \<le> width \<and> width < 2 ^ 32 \<and> 0 \<le> height \<and> height < 2 ^ 32 \<and> d = spec_ihdr width height"
  by (auto simp: pack_IIBBBBB_def bind_err_def spec_ihdr_def pack_I_def split: sum.splits if_splits)

lemma pack_IIBBBBB_ok:
  "0 \<le> width \<Longrightarrow> width < 2 ^ 32 \<Longrightarrow> 0 \<le> height \<Longrightarrow> height < 2 ^ 32 \<Longrightarrow>
     pack_IIBBBBB width height = Inr (spec_ihdr width height)"
  by (simp add: pack_IIBBBBB_def bind_err_def spec_ihdr_def pack_I_def)

lemma length_be32: "length (be32 w) = 4"
  by (simp add: be32_def)

lemma length_spec_ihdr: "length (spec_ihdr width height) = 13"
  by (simp add: spec_ihdr_def be32_def)

lemma create_png_Inr:
  assumes "create_png Z width height pixels = Inr out"
  shows "0 \<le> width \<and> width < 2 ^ 32 \<and> 0 \<le> height \<and> height < 2 ^ 32
         \<and> length (compress Z (spec_scanlines (nat width) (nat height) pixels)) < 2 ^ 32
         \<and> out = signature @ spec_chunk Z ''IHDR'' (spec_ihdr width height)
                @ spec_chunk Z ''IDAT'' (compress Z (spec_scanlines (nat width) (nat height) pixels))
                @ spec_chunk Z ''IEND'' []"
proof -
  from assms obtain d where d: "pack_IIBBBBB width height = Inr d"
    by (cases "pack_IIBBBBB width height") (simp_all add: create_png_def bind_err_def)
  from pack_IIBBBBB_Inr[OF d] have rng: "0 \<le> width" "width < 2 ^ 32" "0 \<le> height" "height < 2 ^ 32"
    and dd: "d = spec_ihdr width height" by simp_all
  let ?raw = "spec_scanlines (nat width) (nat height) pixels"
  have raw: "foldl (raw_row width pixels) [] (py_range 0 height) = ?raw"
    by (rule raw_data_scanlines[OF rng(1)])
  from assms obtain l where l: "pack_I (int (length (compress Z ?raw))) = Inr l"
    by (cases "pack_I (int (length (compress Z ?raw)))")
       (simp_all add: create_png_def bind_err_def d raw pack_I_uint pack_I_13 Let_def)
  from pack_I_Inr[OF l] have len: "length (compress Z ?raw) < 2 ^ 32"
    and ll: "l = be32 (word_of_nat (length (compress Z ?raw)))" by simp_all
  have "13 = (word_of_nat (length (spec_ihdr width height)) :: 32 word)"
    by (simp add: length_spec_ihdr)
  then have "out = signature @ spec_chunk Z ''IHDR'' (spec_ihdr width height)
                @ spec_chunk Z ''IDAT'' (compress Z ?raw) @ spec_chunk Z ''IEND'' []"
    using assms
    by (simp add: create_png_def bind_err_def d dd raw l ll pack_I_uint pack_I_13 pack_I_0 Let_def
        spec_chunk_def)
  with rng len show ?thesis by simp
qed

lemma create_png_ok:
  assumes "0 \<le> width" "width < 2 ^ 32" "0 \<le> height" "height < 2 ^ 32"
    and "length (compress Z (spec_scanlines (nat width) (nat height) pixels)) < 2 ^ 32"
  shows "create_png Z width height pixels =
           Inr (signature @ spec_chunk Z ''IHDR'' (spec_ihdr width height)
                @ spec_chunk Z ''IDAT'' (compress Z (spec_scanlines (nat width) (nat height) pixels))
                @ spec_chunk Z ''IEND'' [])"
proof -
  let ?raw = "spec_scanlines (nat width) (nat height) pixels"
  have raw: "foldl (raw_row width pixels) [] (py_range 0 height) = ?raw"
    by (rule raw_data_scanlines[OF assms(1)])
  have l: "pack_I (int (length (compress Z ?raw))) = Inr (be32 (word_of_nat (length (compress Z ?raw))))"
    using assms(5) by (simp add: pack_I_def)
  have "13 = (word_of_nat (length (spec_ihdr width height)) :: 32 word)"
    by (simp add: length_spec_ihdr)
  then show ?thesis
    by (simp add: create_png_def bind_err_def pack_IIBBBBB_ok[OF assms(1-4)] raw l pack_I_uint
        pack_I_13 pack_I_0 Let_def spec_chunk_def)
qed

lemma zlib_roundtrip_stored: "zlib_roundtrip stored_zlib"
  by (simp add: zlib_roundtrip_def stored_zlib_def deflate_stored_def inflate_stored_def
      le16_def be32_def)

lemma length_deflate_stored: "length (deflate_stored d) = length d + 11"
  by (simp add: deflate_stored_def le16_def be32_def)

lemma iend_chunk_bytes:
  "spec_chunk Z ''IEND'' [] =
     [0, 0, 0, 0, 0x49, 0x45, 0x4E, 0x44] @ be32 (crc32 Z [0x49, 0x45, 0x4E, 0x44])"
  by (simp add: spec_chunk_def bytes_of_def be32_def)

text \<open>
  Claim C2. Whenever \<^verbatim>\<open>create_png\<close> returns, its result is the signature followed by
  three chunks, IHDR, IDAT and IEND, each laid out as \<open>spec_chunk\<close> says: the payload
  length on four bytes (big-endian), the four-byte type tag, the payload, and the CRC32
  of tag and payload on four bytes (big-endian). The lengths fit their four bytes.
\<close>

theorem create_png_chunk_layout:
  assumes "create_png Z width height pixels = Inr out"
  shows "\<exists>ihdr idat.
           out = signature @ spec_chunk Z ''IHDR'' ihdr @ spec_chunk Z ''IDAT'' idat
                   @ spec_chunk Z ''IEND'' []
         \<and> length ihdr = 13 \<and> length idat < 2 ^ 32
         \<and> length (bytes_of ''IHDR'') = 4 \<and> length (bytes_of ''IDAT'') = 4
         \<and> length (bytes_of ''IEND'') = 4"
proof -
  from create_png_Inr[OF assms]
  have "out = signature @ spec_chunk Z ''IHDR'' (spec_ihdr width height)
                @ spec_chunk Z ''IDAT'' (compress Z (spec_scanlines (nat width) (nat height) pixels))
                @ spec_chunk Z ''IEND'' []"
    and "length (compress Z (spec_scanlines (nat width) (nat height) pixels)) < 2 ^ 32"
    by simp_all
  then show ?thesis
    using length_spec_ihdr[of width height] by (auto simp: bytes_of_def)
qed

theorem create_png_chunk_layout_witness:
  "create_png stored_zlib 1 1 [1, 2, 3, 4]
     = Inr (signature @ spec_chunk stored_zlib ''IHDR'' (spec_ihdr 1 1)
              @ spec_chunk stored_zlib ''IDAT'' (deflate_stored [0, 1, 2, 3, 4])
              @ spec_chunk stored_zlib ''IEND'' [])
   \<and> (\<exists>ihdr idat.
         signature @ spec_chunk stored_zlib ''IHDR'' (spec_ihdr 1 1)
              @ spec_chunk stored_zlib ''IDAT'' (deflate_stored [0, 1, 2, 3, 4])
              @ spec_chunk stored_zlib ''IEND'' []
           = signature @ spec_chunk stored_zlib ''IHDR'' ihdr @ spec_chunk stored_zlib ''IDAT'' idat
                   @ spec_chunk stored_zlib ''IEND'' []
         \<and> length ihdr = 13 \<and> length idat < 2 ^ 32
         \<and> length (bytes_of ''IHDR'') = 4 \<and> length (bytes_of ''IDAT'') = 4
         \<and> length (bytes_of ''IEND'') = 4)"
proof -
  have sc: "spec_scanlines (Suc 0) (Suc 0) [1, 2, 3, 4 :: byte] = [0, 1, 2, 3, 4]"
    by (simp add: spec_scanlines_def)
  have c: "compress stored_zlib = deflate_stored" by (simp add: stored_zlib_def)
  have h: "create_png stored_zlib 1 1 [1, 2, 3, 4]
     = Inr (signature @ spec_chunk stored_zlib ''IHDR'' (spec_ihdr 1 1)
              @ spec_chunk stored_zlib ''IDAT'' (deflate_stored [0, 1, 2, 3, 4])
              @ spec_chunk stored_zlib ''IEND'' [])"
    using create_png_ok[of 1 1 stored_zlib "[1, 2, 3, 4]"]
    by (simp add: sc c length_deflate_stored)
  from create_png_chunk_layout[OF h] h show ?thesis by simp
qed

text \<open>
  Claim C1. Whenever \<^verbatim>\<open>create_png\<close> returns a stream for a buffer of
  \<open>width * height * 4\<close> bytes, the stream is the signature, the IHDR chunk whose 13-byte
  payload is width and height on four bytes each (big-endian, both within range) followed
  by 8, 6, 0, 0, 0, then one IDAT chunk whose payload decompresses to the scanlines (the
  rows in order, each prefixed with the filter byte 0, \<open>4 * width + 1\<close> bytes per row), then
  the zero-length IEND chunk. In particular its first eight bytes are the signature and
  its last twelve the IEND chunk.
\<close>

theorem create_png_stream:
  assumes "create_png Z width height pixels = Inr out"
    and "length pixels = nat (width * height * 4)"
    and "zlib_roundtrip Z"
  shows "\<exists>idat.
           out = signature
                  @ spec_chunk Z ''IHDR''
                      (be32 (word_of_int width) @ be32 (word_of_int height) @ [8, 6, 0, 0, 0])
                  @ spec_chunk Z ''IDAT'' idat
                  @ [0, 0, 0, 0, 0x49, 0x45, 0x4E, 0x44] @ be32 (crc32 Z [0x49, 0x45, 0x4E, 0x44])
         \<and> uint (word_of_int width :: 32 word) = width
         \<and> uint (word_of_int height :: 32 word) = height
         \<and> decompress Z idat = spec_scanlines (nat width) (nat height) pixels
         \<and> length (spec_scanlines (nat width) (nat height) pixels)
             = nat height * (4 * nat width + 1)
         \<and> take 8 out = signature
         \<and> drop (length out - 12) out
             = [0, 0, 0, 0, 0x49, 0x45, 0x4E, 0x44] @ be32 (crc32 Z [0x49, 0x45, 0x4E, 0x44])"
proof -
  let ?raw = "spec_scanlines (nat width) (nat height) pixels"
  let ?iend = "[0, 0, 0, 0, 0x49, 0x45, 0x4E, 0x44] @ be32 (crc32 Z [0x49, 0x45, 0x4E, 0x44])"
  let ?front = "signature @ spec_chunk Z ''IHDR'' (spec_ihdr width height)
                  @ spec_chunk Z ''IDAT'' (compress Z ?raw)"
  from create_png_Inr[OF assms(1)]
  have rng: "0 \<le> width" "width < 2 ^ 32" "0 \<le> height" "height < 2 ^ 32"
    and out: "out = ?front @ ?iend"
    by (simp_all add: iend_chunk_bytes)
  have w: "uint (word_of_int width :: 32 word) = width"
    using rng(1,2) by (simp add: uint_word_of_int take_bit_int_eq_self)
  have h: "uint (word_of_int height :: 32 word) = height"
    using rng(3,4) by (simp add: uint_word_of_int take_bit_int_eq_self)
  have "nat (width * height * 4) = 4 * nat width * nat height"
    using rng(1,3) by (simp add: nat_mult_distrib mult.commute)
  then have len: "length ?raw = nat height * (4 * nat width + 1)"
    using assms(2) by (intro length_spec_scanlines) simp
  have rt: "decompress Z (compress Z ?raw) = ?raw"
    using assms(3) by (simp add: zlib_roundtrip_def)
  have sig: "take 8 out = signature"
    unfolding out by (simp add: signature_def)
  have "length ?iend = 12" by (simp add: length_be32)
  then have "length out - 12 = length ?front" unfolding out by simp
  then have tl: "drop (length out - 12) out = ?iend"
    unfolding out by simp
  from out w h rt len sig tl show ?thesis
    by (intro exI[of _ "compress Z ?raw"]) (simp add: spec_ihdr_def)
qed

theorem create_png_stream_witness:
  "create_png stored_zlib 1 1 [1, 2, 3, 4]
     = Inr (signature @ spec_chunk stored_zlib ''IHDR'' (spec_ihdr 1 1)
              @ spec_chunk stored_zlib ''IDAT'' (deflate_stored [0, 1, 2, 3, 4])
              @ spec_chunk stored_zlib ''IEND'' [])
   \<and> length [1, 2, 3, 4 :: byte] = nat (1 * 1 * 4)
   \<and> zlib_roundtrip stored_zlib
   \<and> (\<exists>idat.
         signature @ spec_chunk stored_zlib ''IHDR'' (spec_ihdr 1 1)
              @ spec_chunk stored_zlib ''IDAT'' (deflate_stored [0, 1, 2, 3, 4])
              @ spec_chunk stored_zlib ''IEND'' []
           = signature
              @ spec_chunk stored_zlib ''IHDR'' (be32 1 @ be32 1 @ [8, 6, 0, 0, 0])
              @ spec_chunk stored_zlib ''IDAT'' idat
              @ [0, 0, 0, 0, 0x49, 0x45, 0x4E, 0x44]
              @ be32 (crc32 stored_zlib [0x49, 0x45, 0x4E, 0x44])
         \<and> decompress stored_zlib idat = [0, 1, 2, 3, 4])"
proof -
  have sc: "spec_scanlines (Suc 0) (Suc 0) [1, 2, 3, 4 :: byte] = [0, 1, 2, 3, 4]"
    by (simp add: spec_scanlines_def)
  have c: "compress stored_zlib = deflate_stored" by (simp add: stored_zlib_def)
  have h: "create_png stored_zlib 1 1 [1, 2, 3, 4]
     = Inr (signature @ spec_chunk stored_zlib ''IHDR'' (spec_ihdr 1 1)
              @ spec_chunk stored_zlib ''IDAT'' (deflate_stored [0, 1, 2, 3, 4])
              @ spec_chunk stored_zlib ''IEND'' [])"
    using create_png_ok[of 1 1 stored_zlib "[1, 2, 3, 4]"]
    by (simp add: sc c length_deflate_stored)
  have px: "length [1, 2, 3, 4 :: byte] = nat (1 * 1 * 4)" by simp
  have one: "word_of_int 1 = (1 :: 32 word)" by simp
  from create_png_stream[OF h px zlib_roundtrip_stored]
  obtain idat where
    "signature @ spec_chunk stored_zlib ''IHDR'' (spec_ihdr 1 1)
              @ spec_chunk stored_zlib ''IDAT'' (deflate_stored [0, 1, 2, 3, 4])
              @ spec_chunk stored_zlib ''IEND'' []
           = signature
              @ spec_chunk stored_zlib ''IHDR'' (be32 (word_of_int 1) @ be32 (word_of_int 1) @ [8, 6, 0, 0, 0])
              @ spec_chunk stored_zlib ''IDAT'' idat
              @ [0, 0, 0, 0, 0x49, 0x45, 0x4E, 0x44]
              @ be32 (crc32 stored_zlib [0x49, 0x45, 0x4E, 0x44])"
    and "decompress stored_zlib idat = spec_scanlines (nat 1) (nat 1) [1, 2, 3, 4]"
    by blast
  then have "\<exists>idat.
         signature @ spec_chunk stored_zlib ''IHDR'' (spec_ihdr 1 1)
              @ spec_chunk stored_zlib ''IDAT'' (deflate_stored [0, 1, 2, 3, 4])
              @ spec_chunk stored_zlib ''IEND'' []
           = signature
              @ spec_chunk stored_zlib ''IHDR'' (be32 1 @ be32 1 @ [8, 6, 0, 0, 0])
              @ spec_chunk stored_zlib ''IDAT'' idat
              @ [0, 0, 0, 0, 0x49, 0x45, 0x4E, 0x44]
              @ be32 (crc32 stored_zlib [0x49, 0x45, 0x4E, 0x44])
         \<and> decompress stored_zlib idat = [0, 1, 2, 3, 4]"
    unfolding one using sc by (intro exI[of _ idat]) simp
  with h px zlib_roundtrip_stored show ?thesis by blast
qed

section \<open>Properties of \<^verbatim>\<open>draw_circle\<close>\<close>

lemma blk_update_same:
  "i + 4 \<le> length xs \<Longrightarrow> length c = 4 \<Longrightarrow>
     take 4 (drop i (take i xs @ c @ drop (i + 4) xs)) = c"
  by simp

lemma blk_update_before:
  "i + 4 \<le> length xs \<Longrightarrow> j + 4 \<le> i \<Longrightarrow>
     take 4 (drop j (take i xs @ c @ drop (i + 4) xs)) = take 4 (drop j xs)"
proof -
  assume a: "i + 4 \<le> length xs" "j + 4 \<le> i"
  have A: "drop j (take i xs @ c @ drop (i + 4) xs)
           = take (i - j) (drop j xs) @ c @ drop (i + 4) xs"
    using a by (simp add: drop_take)
  have "4 \<le> length (take (i - j) (drop j xs))" using a by simp
  then have "take 4 (take (i - j) (drop j xs) @ c @ drop (i + 4) xs)
             = take 4 (take (i - j) (drop j xs))" by simp
  also have "\<dots> = take 4 (drop j xs)" using a by (simp add: min_def)
  finally show ?thesis using A by simp
qed

lemma blk_update_after:
  "i + 4 \<le> length xs \<Longrightarrow> length c = 4 \<Longrightarrow> i + 4 \<le> j \<Longrightarrow>
     take 4 (drop j (take i xs @ c @ drop (i + 4) xs)) = take 4 (drop j xs)"
proof -
  assume a: "i + 4 \<le> length xs" "length c = 4" "i + 4 \<le> j"
  have "i + 4 + (j - (i + 4)) = j" using a by simp
  then have "drop (j - (i + 4)) (drop (i + 4) xs) = drop j xs"
    by (simp only: drop_drop add.commute)
  then show ?thesis using a by simp
qed

lemma slice_assign_nat4:
  "n + 4 \<le> length xs \<Longrightarrow>
     slice_assign xs (int n) (int n + 4) c = take n xs @ c @ drop (n + 4) xs"
  by (simp add: slice_assign_def slice_bound_def Let_def min_def max_def nat_add_distrib)

text \<open>Offsets of in-range pixels.\<close>

lemma pixel_index_nat:
  fixes x y width height :: int
  assumes "0 \<le> x" "x < width" "0 \<le> y" "y < height"
  shows "(y * width + x) * 4 = int (4 * (nat y * nat width + nat x))"
    and "4 * (nat y * nat width + nat x) + 4 \<le> 4 * (nat width * nat height)"
proof -
  obtain a b w h where e: "x = int a" "y = int b" "width = int w" "height = int h"
    using assms by (metis nonneg_int_cases less_le_not_le order_trans linear)
  show "(y * width + x) * 4 = int (4 * (nat y * nat width + nat x))"
    by (simp add: e)
  have "a < w" "b < h" using assms e by simp_all
  then have "b * w + a < b * w + w" "Suc b \<le> h" by simp_all
  then have "b * w + a < Suc b * w" "Suc b * w \<le> h * w"
    by (simp_all only: mult_le_mono1) simp
  then have "b * w + a + 1 \<le> w * h" by (simp add: mult.commute)
  then show "4 * (nat y * nat width + nat x) + 4 \<le> 4 * (nat width * nat height)"
    by (simp add: e)
qed

lemma pixel_index_inj:
  fixes x y x' y' width :: int
  assumes "x < width" "0 \<le> x" "x' < width" "0 \<le> x'" "(x, y) \<noteq> (x', y')"
  shows "(y * width + x) + 1 \<le> y' * width + x' \<or> (y' * width + x') + 1 \<le> y * width + x"
proof (cases "y = y'")
  case True
  with assms have "x < x' \<or> x' < x" by auto
  then show ?thesis using True by auto
next
  case False
  then consider "y + 1 \<le> y'" | "y' + 1 \<le> y" by linarith
  then show ?thesis
  proof cases
    case 1
    then have "(y + 1) * width \<le> y' * width" using assms by (intro mult_right_mono) simp_all
    then show ?thesis using assms by (simp add: algebra_simps)
  next
    case 2
    then have "(y' + 1) * width \<le> y * width" using assms by (intro mult_right_mono) simp_all
    then show ?thesis using assms by (simp add: algebra_simps)
  qed
qed

lemma put_pixel_eq:
  fixes x y width height :: int
  assumes "0 \<le> x" "x < width" "0 \<le> y" "y < height"
    and "length pixels = 4 * (nat width * nat height)"
  shows "put_pixel width color pixels (x, y)
         = take (4 * (nat y * nat width + nat x)) pixels @ color
             @ drop (4 * (nat y * nat width + nat x) + 4) pixels"
proof -
  note i = pixel_index_nat[OF assms(1-4)]
  have "4 * (nat y * nat width + nat x) + 4 \<le> length pixels" using i(2) assms(5) by simp
  from slice_assign_nat4[OF this] show ?thesis
    unfolding put_pixel_def Let_def prod.case i(1) .
qed

lemma pixel_at_eq:
  fixes x y width height :: int
  assumes "0 \<le> x" "x < width" "0 \<le> y" "y < height"
  shows "pixel_at width pixels x y = take 4 (drop (4 * (nat y * nat width + nat x)) pixels)"
  unfolding pixel_at_def Let_def pixel_index_nat(1)[OF assms] by (rule slice_nat4)

lemma put_pixel_length:
  fixes x y width height :: int
  assumes "0 \<le> x" "x < width" "0 \<le> y" "y < height"
    and "length pixels = 4 * (nat width * nat height)" and "length color = 4"
  shows "length (put_pixel width color pixels (x, y)) = length pixels"
proof -
  have "4 * (nat y * nat width + nat x) + 4 \<le> length pixels"
    using pixel_index_nat(2)[OF assms(1-4)] assms(5) by simp
  then show ?thesis unfolding put_pixel_eq[OF assms(1-5)] using assms(6) by simp
qed

lemma pixel_at_put_pixel:
  fixes x y x' y' width height :: int
  assumes "0 \<le> x" "x < width" "0 \<le> y" "y < height"
    and "length pixels = 4 * (nat width * nat height)" and "length color = 4"
    and "0 \<le> x'" "x' < width" "0 \<le> y'" "y' < height"
  shows "pixel_at width (put_pixel width color pixels (x, y)) x' y'
         = (if x' = x \<and> y' = y then color else pixel_at width pixels x' y')"
proof -
  let ?n = "4 * (nat y * nat width + nat x)"
  let ?m = "4 * (nat y' * nat width + nat x')"
  have n: "?n + 4 \<le> length pixels"
    using pixel_index_nat(2)[OF assms(1-4)] assms(5) by simp
  have pa: "pixel_at width (put_pixel width color pixels (x, y)) x' y'
            = take 4 (drop ?m (take ?n pixels @ color @ drop (?n + 4) pixels))"
    unfolding pixel_at_eq[OF assms(7-10)] put_pixel_eq[OF assms(1-5)] ..
  show ?thesis
  proof (cases "x' = x \<and> y' = y")
    case True
    then show ?thesis unfolding pa using blk_update_same[OF n assms(6)] by simp
  next
    case False
    then have "(x, y) \<noteq> (x', y')" by auto
    from pixel_index_inj[OF assms(2,1,8,7) this]
    have "(y * width + x) * 4 + 4 \<le> (y' * width + x') * 4
          \<or> (y' * width + x') * 4 + 4 \<le> (y * width + x) * 4" by auto
    then have "int ?n + 4 \<le> int ?m \<or> int ?m + 4 \<le> int ?n"
      unfolding pixel_index_nat(1)[OF assms(1-4)] pixel_index_nat(1)[OF assms(7-10)] .
    then have "?n + 4 \<le> ?m \<or> ?m + 4 \<le> ?n" by linarith
    then have e: "take 4 (drop ?m (take ?n pixels @ color @ drop (?n + 4) pixels))
               = take 4 (drop ?m pixels)"
      using blk_update_before[OF n] blk_update_after[OF n assms(6)] by blast
    have "pixel_at width (put_pixel width color pixels (x, y)) x' y' = pixel_at width pixels x' y'"
      unfolding pixel_at_eq[OF assms(7-10)] put_pixel_eq[OF assms(1-5)] by (rule e)
    then show ?thesis using False by auto
  qed
qed

lemma foldl_put_pixel:
  fixes x' y' width height :: int
  assumes "\<forall>p \<in> set cs. 0 \<le> fst p \<and> fst p < width \<and> 0 \<le> snd p \<and> snd p < height"
    and "length pixels = 4 * (nat width * nat height)" and "length color = 4"
    and "0 \<le> x'" "x' < width" "0 \<le> y'" "y' < height"
  shows "length (foldl (put_pixel width color) pixels cs) = length pixels
       \<and> pixel_at width (foldl (put_pixel width color) pixels cs) x' y'
         = (if (x', y') \<in> set cs then color else pixel_at width pixels x' y')"
  using assms(1,2)
proof (induction cs arbitrary: pixels)
  case Nil
  show ?case by simp
next
  case (Cons p cs)
  obtain x y where p: "p = (x, y)" by (cases p)
  with Cons.prems have r: "0 \<le> x" "x < width" "0 \<le> y" "y < height" by simp_all
  have l: "length (put_pixel width color pixels (x, y)) = length pixels"
    by (rule put_pixel_length[OF r Cons.prems(2) assms(3)])
  have "\<forall>p \<in> set cs. 0 \<le> fst p \<and> fst p < width \<and> 0 \<le> snd p \<and> snd p < height"
    using Cons.prems(1) by simp
  from Cons.IH[OF this, of "put_pixel width color pixels (x, y)"] l Cons.prems(2)
  have "length (foldl (put_pixel width color) (put_pixel width color pixels (x, y)) cs)
          = length pixels"
    and "pixel_at width (foldl (put_pixel width color) (put_pixel width color pixels (x, y)) cs) x' y'
         = (if (x', y') \<in> set cs then color
            else pixel_at width (put_pixel width color pixels (x, y)) x' y')"
    by simp_all
  then show ?case
    unfolding p using pixel_at_put_pixel[OF r Cons.prems(2) assms(3-7)] by auto
qed

lemma foldl_put_pixel_length:
  fixes width height :: int
  assumes "\<forall>p \<in> set cs. 0 \<le> fst p \<and> fst p < width \<and> 0 \<le> snd p \<and> snd p < height"
    and "length pixels = 4 * (nat width * nat height)" and "length color = 4"
  shows "length (foldl (put_pixel width color) pixels cs) = length pixels"
  using assms(1,2)
proof (induction cs arbitrary: pixels)
  case Nil
  show ?case by simp
next
  case (Cons p cs)
  obtain x y where p: "p = (x, y)" by (cases p)
  with Cons.prems have r: "0 \<le> x" "x < width" "0 \<le> y" "y < height" by simp_all
  have l: "length (put_pixel width color pixels (x, y)) = length pixels"
    by (rule put_pixel_length[OF r Cons.prems(2) assms(3)])
  have "\<forall>p \<in> set cs. 0 \<le> fst p \<and> fst p < width \<and> 0 \<le> snd p \<and> snd p < height"
    using Cons.prems(1) by simp
  from Cons.IH[OF this, of "put_pixel width color pixels (x, y)"] l Cons.prems(2)
  show ?case unfolding p by simp
qed

lemma circle_coords_iff:
  "(x, y) \<in> set (circle_coords width height cx cy radius) \<longleftrightarrow>
     max 0 (cy - radius) \<le> y \<and> y < min height (cy + radius + 1)
   \<and> max 0 (cx - radius) \<le> x \<and> x < min width (cx + radius + 1)
   \<and> (x - cx) * (x - cx) + (y - cy) * (y - cy) \<le> radius * radius"
  by (force simp: circle_coords_def py_range_def Let_def)

lemma circle_coords_in_buffer:
  "p \<in> set (circle_coords width height cx cy radius) \<Longrightarrow>
     0 \<le> fst p \<and> fst p < width \<and> 0 \<le> snd p \<and> snd p < height"
  by (cases p) (simp add: circle_coords_iff)

lemma square_le_bound:
  fixes a b r :: int
  assumes "a * a + b * b \<le> r * r" "0 \<le> r"
  shows "- r \<le> a \<and> a \<le> r"
proof -
  have "0 \<le> b * b" by simp
  with assms(1) have "a * a \<le> r * r" by linarith
  then have "a\<^sup>2 \<le> r\<^sup>2" by (simp add: power2_eq_square)
  then have "\<bar>a\<bar> \<le> \<bar>r\<bar>" by (simp add: abs_le_square_iff)
  then show ?thesis using assms(2) by linarith
qed

lemma circle_coords_disc:
  fixes x y :: int
  assumes "0 \<le> radius" "0 \<le> x" "x < width" "0 \<le> y" "y < height"
  shows "(x, y) \<in> set (circle_coords width height cx cy radius) \<longleftrightarrow>
           (x - cx) * (x - cx) + (y - cy) * (y - cy) \<le> radius * radius"
proof
  assume "(x, y) \<in> set (circle_coords width height cx cy radius)"
  then show "(x - cx) * (x - cx) + (y - cy) * (y - cy) \<le> radius * radius"
    by (simp add: circle_coords_iff)
next
  assume d: "(x - cx) * (x - cx) + (y - cy) * (y - cy) \<le> radius * radius"
  then have d': "(y - cy) * (y - cy) + (x - cx) * (x - cx) \<le> radius * radius" by simp
  from square_le_bound[OF d assms(1)] square_le_bound[OF d' assms(1)] d assms
  show "(x, y) \<in> set (circle_coords width height cx cy radius)"
    by (simp add: circle_coords_iff)
qed

lemma buffer_length:
  fixes x y width height :: int
  assumes "length pixels = nat (width * height * 4)" "0 \<le> x" "x < width" "0 \<le> y" "y < height"
  shows "length pixels = 4 * (nat width * nat height)"
proof -
  have "0 \<le> width" "0 \<le> height" using assms by simp_all
  then have "nat (width * height * 4) = 4 * (nat width * nat height)"
    by (simp add: nat_mult_distrib mult.commute)
  with assms(1) show ?thesis by simp
qed

lemma draw_circle_length:
  fixes width height :: int
  assumes "length pixels = 4 * (nat width * nat height)" "length color = 4"
  shows "length (draw_circle pixels width height cx cy radius color) = length pixels"
  unfolding draw_circle_def
  by (rule foldl_put_pixel_length[OF _ assms]) (simp add: circle_coords_in_buffer)

text \<open>
  Claim C4. On a buffer of \<open>width * height * 4\<close> bytes, with a non-negative radius and a
  4-byte colour, \<^verbatim>\<open>draw_circle\<close> leaves in every pixel \<open>(x, y)\<close> of the buffer exactly the
  colour when \<open>(x - cx)\<^sup>2 + (y - cy)\<^sup>2 \<le> radius\<^sup>2\<close>, and what the pixel held before otherwise.
\<close>

theorem draw_circle_pixels:
  fixes x y width height cx cy radius :: int
  assumes "length pixels = nat (width * height * 4)" "length color = 4" "0 \<le> radius"
    and "0 \<le> x" "x < width" "0 \<le> y" "y < height"
  shows "pixel_at width (draw_circle pixels width height cx cy radius color) x y
         = (if (x - cx)\<^sup>2 + (y - cy)\<^sup>2 \<le> radius\<^sup>2 then color else pixel_at width pixels x y)"
proof -
  note len = buffer_length[OF assms(1,4-7)]
  have "\<forall>p \<in> set (circle_coords width height cx cy radius).
          0 \<le> fst p \<and> fst p < width \<and> 0 \<le> snd p \<and> snd p < height"
    by (simp add: circle_coords_in_buffer)
  from foldl_put_pixel[OF this len assms(2,4-7)]
  have "pixel_at width (draw_circle pixels width height cx cy radius color) x y
        = (if (x, y) \<in> set (circle_coords width height cx cy radius) then color
           else pixel_at width pixels x y)"
    unfolding draw_circle_def by simp
  then show ?thesis
    unfolding circle_coords_disc[OF assms(3-7)] power2_eq_square .
qed

theorem draw_circle_pixels_witness:
  "pixel_at 3 (draw_circle (replicate 36 0) 3 3 1 1 1 [1, 2, 3, 4]) 1 0 = [1, 2, 3, 4]
   \<and> pixel_at 3 (draw_circle (replicate 36 0) 3 3 1 1 1 [1, 2, 3, 4]) 0 0
       = pixel_at 3 (replicate 36 0) 0 0"
  using draw_circle_pixels[of "replicate 36 0" 3 3 "[1, 2, 3, 4]" 1 1 0 1 1]
        draw_circle_pixels[of "replicate 36 0" 3 3 "[1, 2, 3, 4]" 1 0 0 1 1]
  by simp

section \<open>Properties of the double-precision operations\<close>

lemma bitlen_powi_bounds:
  assumes "0 < (p :: int)"
  shows "(2 :: rat) powi (bitlen p - 1) \<le> of_int p" and "of_int p < (2 :: rat) powi (bitlen p)"
proof -
  from bitlen_bounds[OF assms] have b: "2 ^ nat (bitlen p - 1) \<le> p" "p < 2 ^ nat (bitlen p)"
    by simp_all
  have ge: "1 \<le> bitlen p" using assms by (simp add: bitlen_alt_def)
  have "(of_int (2 ^ nat (bitlen p - 1)) :: rat) \<le> of_int p" using b(1) by (simp only: of_int_le_iff)
  then show "(2 :: rat) powi (bitlen p - 1) \<le> of_int p"
    using ge by (simp add: power_int_def)
  have "(of_int p :: rat) < of_int (2 ^ nat (bitlen p))" using b(2) by (simp only: of_int_less_iff)
  then show "of_int p < (2 :: rat) powi (bitlen p)"
    using ge by (simp add: power_int_def)
qed

lemma ilog2_bounds:
  assumes "x \<noteq> 0"
  shows "2 powi (ilog2 x) \<le> \<bar>x\<bar>" and "\<bar>x\<bar> < 2 powi (ilog2 x + 1)"
proof -
  obtain p q where pq: "quotient_of \<bar>x\<bar> = (p, q)" by (cases "quotient_of \<bar>x\<bar>")
  have q: "0 < q" using quotient_of_denom_pos[OF pq] .
  have x: "\<bar>x\<bar> = of_int p / of_int q" using quotient_of_div[OF pq] .
  have "0 < \<bar>x\<bar>" using assms by simp
  then have p: "0 < p" using x q by (simp add: zero_less_divide_iff)
  let ?d = "bitlen p - bitlen q"
  note bp = bitlen_powi_bounds[OF p] and bq = bitlen_powi_bounds[OF q]
  have qpos: "(0 :: rat) < of_int q" using q by simp
  have "of_int p < (2 :: rat) powi (bitlen p)" by (rule bp(2))
  also have "\<dots> = 2 powi (?d + 1) * 2 powi (bitlen q - 1)"
    by (simp flip: power_int_add)
  also have "\<dots> \<le> 2 powi (?d + 1) * of_int q"
    using bq(1) by (intro mult_left_mono) simp_all
  finally have up: "\<bar>x\<bar> < 2 powi (?d + 1)"
    unfolding x using qpos by (simp add: pos_divide_less_eq)
  have "(2 :: rat) powi (?d - 1) * of_int q < 2 powi (?d - 1) * 2 powi (bitlen q)"
    using bq(2) by (intro mult_strict_left_mono) simp_all
  also have "\<dots> = 2 powi (bitlen p - 1)" by (simp flip: power_int_add)
  also have "\<dots> \<le> of_int p" by (rule bp(1))
  finally have lo: "2 powi (?d - 1) \<le> \<bar>x\<bar>"
    unfolding x using qpos by (simp add: pos_le_divide_eq)
  have e: "ilog2 x = (if 2 powi ?d \<le> \<bar>x\<bar> then ?d else ?d - 1)"
    by (simp add: ilog2_def pq Let_def)
  show "2 powi (ilog2 x) \<le> \<bar>x\<bar>" using lo by (simp add: e)
  show "\<bar>x\<bar> < 2 powi (ilog2 x + 1)" using up by (auto simp: e not_le)
qed

lemma powi2_mono: "a \<le> b \<Longrightarrow> (2 :: rat) powi a \<le> 2 powi b"
  by (rule power_int_increasing) simp_all

lemma powi2_less_iff: "(2 :: rat) powi a < 2 powi b \<longleftrightarrow> a < b"
proof
  assume l: "(2 :: rat) powi a < 2 powi b"
  show "a < b"
  proof (rule ccontr)
    assume "\<not> a < b"
    then have "(2 :: rat) powi b \<le> 2 powi a" by (intro powi2_mono) simp
    with l show False by simp
  qed
next
  assume "a < b"
  then show "(2 :: rat) powi a < 2 powi b" by (intro power_int_strict_increasing) simp_all
qed

lemma ilog2_less:
  assumes "\<bar>x\<bar> < 2 powi k" "x \<noteq> 0"
  shows "ilog2 x < k"
proof -
  have "2 powi (ilog2 x) < (2 :: rat) powi k"
    using ilog2_bounds(1)[OF assms(2)] assms(1) by simp
  then show ?thesis by (simp only: powi2_less_iff)
qed

lemma ilog2_ge:
  assumes "2 powi k \<le> \<bar>x\<bar>"
  shows "k \<le> ilog2 x"
proof -
  have "(0 :: rat) < 2 powi k" by simp
  with assms have "0 < \<bar>x\<bar>" by linarith
  then have "x \<noteq> 0" by simp
  from ilog2_bounds(2)[OF this] assms have "(2 :: rat) powi k < 2 powi (ilog2 x + 1)" by simp
  then have "k < ilog2 x + 1" by (simp only: powi2_less_iff)
  then show ?thesis by simp
qed

lemma round_half_even_of_int: "round_half_even (of_int n) = n"
  by (simp add: round_half_even_def Let_def)

lemma round_half_even_error: "\<bar>of_int (round_half_even y) - y\<bar> \<le> 1 / 2"
proof -
  have "of_int \<lfloor>y\<rfloor> \<le> y" "y < of_int \<lfloor>y\<rfloor> + 1" by linarith+
  then show ?thesis
    by (auto simp: round_half_even_def Let_def abs_le_iff)
qed

lemma round_half_even_nonneg: "0 \<le> y \<Longrightarrow> 0 \<le> round_half_even y"
  by (auto simp: round_half_even_def Let_def)

lemma fl_zero: "fl 0 = 0"
  by (simp add: fl_def)

lemma fl_nonneg: "0 \<le> x \<Longrightarrow> 0 \<le> fl x"
  by (auto simp: fl_def Let_def intro!: mult_nonneg_nonneg round_half_even_nonneg)

lemma fl_error:
  assumes "x \<noteq> 0"
  shows "\<bar>fl x - x\<bar> \<le> 2 powi (max (ilog2 x - 52) (- 1074)) / 2"
proof -
  let ?q = "(2 :: rat) powi (max (ilog2 x - 52) (- 1074))"
  have q: "0 < ?q" by simp
  then have "fl x - x = (of_int (round_half_even (x / ?q)) - x / ?q) * ?q"
    using assms by (simp add: fl_def Let_def algebra_simps)
  then have "\<bar>fl x - x\<bar> = \<bar>of_int (round_half_even (x / ?q)) - x / ?q\<bar> * ?q"
    using q by (simp add: abs_mult)
  also have "\<dots> \<le> (1 / 2) * ?q"
    using q round_half_even_error[of "x / ?q"] by (intro mult_right_mono) simp_all
  finally show ?thesis by simp
qed

lemma fl_error_bound:
  assumes "\<bar>x\<bar> < 2 powi k" "- 1021 \<le> k"
  shows "\<bar>fl x - x\<bar> \<le> 2 powi (k - 54)"
proof (cases "x = 0")
  case True
  then show ?thesis by (simp add: fl_zero)
next
  case False
  have "ilog2 x < k" by (rule ilog2_less[OF assms(1) False])
  then have "max (ilog2 x - 52) (- 1074) \<le> k - 53" using assms(2) by simp
  then have "(2 :: rat) powi (max (ilog2 x - 52) (- 1074)) \<le> 2 powi (k - 53)"
    by (rule powi2_mono)
  then have "(2 :: rat) powi (max (ilog2 x - 52) (- 1074)) / 2 \<le> 2 powi (k - 53) / 2"
    by simp
  also have "(2 :: rat) powi (k - 53) / 2 = 2 powi (k - 54)"
    using power_int_add[of "2 :: rat" "k - 54" 1] by simp
  finally show ?thesis using fl_error[OF False] by linarith
qed

lemma fl_exact:
  assumes "\<bar>m\<bar> < 2 ^ 53" "- 1074 \<le> k"
  shows "fl (of_int m * 2 powi k) = of_int m * 2 powi k"
proof (cases "m = 0")
  case True
  then show ?thesis by (simp add: fl_zero)
next
  case False
  let ?x = "of_int m * (2 :: rat) powi k"
  have x0: "?x \<noteq> 0" using False by simp
  have "\<bar>?x\<bar> = of_int \<bar>m\<bar> * 2 powi k" by (simp add: abs_mult)
  also have "\<dots> < of_int (2 ^ 53) * 2 powi k"
  proof (rule mult_strict_right_mono)
    show "(of_int \<bar>m\<bar> :: rat) < of_int (2 ^ 53)" using assms(1) by (simp only: of_int_less_iff)
    show "(0 :: rat) < 2 powi k" by simp
  qed
  also have "\<dots> = 2 powi (53 + k)" by (simp add: power_int_add)
  finally have "ilog2 ?x < 53 + k" using ilog2_less x0 by blast
  then have j: "max (ilog2 ?x - 52) (- 1074) \<le> k" using assms(2) by simp
  define j where "j = max (ilog2 ?x - 52) (- 1074)"
  have jk: "j \<le> k" using j by (simp add: j_def)
  have "(2 :: rat) powi k = 2 powi (k - j) * 2 powi j" by (simp flip: power_int_add)
  also have "(2 :: rat) powi (k - j) = of_int (2 ^ nat (k - j))"
    using jk by (simp add: power_int_def)
  finally have split: "(2 :: rat) powi k = of_int (2 ^ nat (k - j)) * 2 powi j" .
  have "?x / 2 powi j = of_int (m * 2 ^ nat (k - j))"
    by (simp add: split)
  then have "round_half_even (?x / 2 powi j) = m * 2 ^ nat (k - j)"
    by (simp only: round_half_even_of_int)
  then have "of_int (round_half_even (?x / 2 powi j)) * 2 powi j = ?x"
    by (simp add: split)
  then show ?thesis using x0 by (simp add: fl_def Let_def j_def)
qed

lemma fl_of_int: "\<bar>n\<bar> < 2 ^ 53 \<Longrightarrow> fl (of_int n) = of_int n"
  using fl_exact[of n 0] by simp

lemma ilog2_zero: "ilog2 0 = - 2"
  by (simp add: ilog2_def bitlen_alt_def Let_def)

lemma not_is_inf:
  assumes "\<bar>x\<bar> < 2 powi 1024"
  shows "\<not> is_inf x"
proof (cases "x = 0")
  case True
  then show ?thesis by (simp add: is_inf_def ilog2_zero)
next
  case False
  from ilog2_less[OF assms False] show ?thesis by (simp add: is_inf_def)
qed

lemma float_of_int_exact: "\<bar>n\<bar> < 2 ^ 53 \<Longrightarrow> float_of_int n = Inr (of_int n)"
proof -
  assume a: "\<bar>n\<bar> < 2 ^ 53"
  have "\<bar>n\<bar> < 2 ^ 1024" using a by (rule less_trans) simp
  then have "\<bar>of_int n :: rat\<bar> < of_int (2 ^ 1024)"
    by (simp only: of_int_less_iff flip: of_int_abs)
  then have "\<not> is_inf (of_int n)" by (intro not_is_inf) simp
  then show ?thesis using a by (simp add: float_of_int_def fl_of_int Let_def)
qed

lemma float_of_byte: "float_of_int (uint (b :: byte)) = Inr (of_int (uint b))"
proof -
  have "uint b < 2 ^ 8" using uint_bounded[of b] by simp
  then have "\<bar>uint b\<bar> < 2 ^ 53" by simp
  then show ?thesis by (rule float_of_int_exact)
qed

lemma fl_upper: "\<bar>x\<bar> < 256 \<Longrightarrow> fl x \<le> x + 1 / 1024"
proof -
  assume "\<bar>x\<bar> < 256"
  then have "\<bar>fl x - x\<bar> \<le> 2 powi (8 - 54)" by (intro fl_error_bound) simp_all
  moreover have "(2 :: rat) powi (8 - 54) \<le> 2 powi (- 10)" by (intro powi2_mono) simp
  moreover have "(2 :: rat) powi (- 10) = 1 / 1024" by (simp add: power_int_minus_divide)
  ultimately show ?thesis by linarith
qed

lemma fl_one: "fl 1 = 1"
  using fl_of_int[of 1] by (simp del: of_int_uint)

lemma byte_rat_range: "0 \<le> (of_int (uint (b :: byte)) :: rat) \<and> (of_int (uint b) :: rat) \<le> 255"
proof -
  have "uint b < 2 ^ 8" using uint_bounded[of b] by (simp del: of_int_uint)
  then have "uint b \<le> 255" by (simp del: of_int_uint)
  then have "(of_int (uint b) :: rat) \<le> of_int 255" by (simp only: of_int_le_iff)
  then show ?thesis by (simp del: of_int_uint)
qed

text \<open>\<^verbatim>\<open>alpha = color[3] / 255.0\<close> lies between 0 and 1.\<close>

lemma alpha_range:
  fixes a :: byte
  shows "0 \<le> fdiv (of_int (uint a)) 255 \<and> fdiv (of_int (uint a)) 255 \<le> 1"
proof -
  let ?A = "of_int (uint a) :: rat"
  note r = byte_rat_range[of a]
  have lo: "0 \<le> fl (?A / 255)" using r by (intro fl_nonneg) (simp del: of_int_uint)
  have hi: "fl (?A / 255) \<le> 1"
  proof (cases "uint a = 255")
    case True
    then show ?thesis by (simp add: fl_one del: of_int_uint)
  next
    case False
    have "uint a < 2 ^ 8" using uint_bounded[of a] by (simp del: of_int_uint)
    with False have "uint a \<le> 254" by (simp del: of_int_uint)
    then have "?A \<le> of_int 254" by (simp only: of_int_le_iff)
    then have b: "?A / 255 \<le> 254 / 255" by (simp del: of_int_uint)
    moreover have "0 \<le> ?A / 255" using r by (simp del: of_int_uint)
    ultimately have "\<bar>?A / 255\<bar> < 256" by linarith
    from fl_upper[OF this] b show ?thesis by linarith
  qed
  from lo hi show ?thesis by (simp add: fdiv_def del: of_int_uint)
qed

lemma fl_step:
  assumes "0 \<le> x" "x \<le> u" "u + 1 / 1024 \<le> 256"
  shows "0 \<le> fl x" and "fl x \<le> u + 1 / 1024"
proof -
  show "0 \<le> fl x" using assms(1) by (rule fl_nonneg)
  have "\<bar>x\<bar> < 256" using assms by linarith
  from fl_upper[OF this] assms(2) show "fl x \<le> u + 1 / 1024" by linarith
qed

lemma blend_sum_range:
  fixes E C alpha :: rat
  assumes "0 \<le> E" "E \<le> 255" "0 \<le> C" "C \<le> 255" "0 \<le> alpha" "alpha \<le> 1"
  shows "0 \<le> fadd (fmul E (fsub 1 alpha)) (fmul C alpha)"
    and "fadd (fmul E (fsub 1 alpha)) (fmul C alpha) < 256"
proof -
  define B where "B = fl (1 - alpha)"
  define X where "X = E * B"
  define Y where "Y = C * alpha"
  define T1 where "T1 = fl X"
  define T2 where "T2 = fl Y"
  have b0: "0 \<le> B" unfolding B_def using assms by (intro fl_nonneg) simp
  have "\<bar>1 - alpha\<bar> < 2" using assms by simp
  then have "\<bar>fl (1 - alpha) - (1 - alpha)\<bar> \<le> 2 powi (1 - 54)"
    by (intro fl_error_bound) simp_all
  moreover have "(2 :: rat) powi (1 - 54) \<le> 2 powi (- 20)" by (intro powi2_mono) simp
  moreover have "(2 :: rat) powi (- 20) = 1 / 1048576" by (simp add: power_int_minus_divide)
  ultimately have b1: "B \<le> 1 - alpha + 1 / 1048576" unfolding B_def by linarith
  have x0: "0 \<le> X" unfolding X_def using assms b0 by simp
  have "X \<le> 255 * B" unfolding X_def using assms b0 by (intro mult_right_mono) simp_all
  with b1 have x1: "X \<le> 255 - 255 * alpha + 1 / 1024" by linarith
  have y0: "0 \<le> Y" unfolding Y_def using assms by simp
  have y1: "Y \<le> 255 * alpha" unfolding Y_def using assms by (intro mult_right_mono) simp_all
  have t1: "0 \<le> T1" "T1 \<le> 255 - 255 * alpha + 1 / 1024 + 1 / 1024"
    unfolding T1_def using assms by (intro fl_step[OF x0 x1]; linarith)+
  have t2: "0 \<le> T2" "T2 \<le> 255 * alpha + 1 / 1024"
    unfolding T2_def using assms by (intro fl_step[OF y0 y1]; linarith)+
  have s0: "0 \<le> T1 + T2" using t1 t2 by simp
  have s1: "T1 + T2 \<le> 255 + 3 / 1024" using t1 t2 by linarith
  have s: "0 \<le> fl (T1 + T2)" "fl (T1 + T2) \<le> 255 + 3 / 1024 + 1 / 1024"
    by (intro fl_step[OF s0 s1]; simp)+
  have e: "fadd (fmul E (fsub 1 alpha)) (fmul C alpha) = fl (T1 + T2)"
    by (simp add: fadd_def fmul_def fsub_def T1_def T2_def X_def Y_def B_def)
  show "0 \<le> fadd (fmul E (fsub 1 alpha)) (fmul C alpha)" unfolding e by (rule s(1))
  show "fadd (fmul E (fsub 1 alpha)) (fmul C alpha) < 256" unfolding e using s(2) by linarith
qed

lemma py_int_small: "0 \<le> x \<Longrightarrow> x < 256 \<Longrightarrow> py_int x = Inr \<lfloor>x\<rfloor>"
proof -
  assume a: "0 \<le> x" "x < 256"
  have "(256 :: rat) < 2 powi 1024" by (simp del: of_int_uint)
  with a have "\<bar>x\<bar> < 2 powi 1024" by (simp del: of_int_uint)
  from not_is_inf[OF this] a show ?thesis by (simp add: py_int_def del: of_int_uint)
qed

lemma float_of_int_one: "float_of_int 1 = Inr 1"
  using float_of_int_exact[of 1] by (simp del: of_int_uint)

lemma blend_channel_eq:
  fixes e c a :: byte
  shows "blend_channel e c (fdiv (of_int (uint a)) 255)
         = Inr \<lfloor>fadd (fmul (of_int (uint e)) (fsub 1 (fdiv (of_int (uint a)) 255)))
                     (fmul (of_int (uint c)) (fdiv (of_int (uint a)) 255))\<rfloor>"
    and "0 \<le> \<lfloor>fadd (fmul (of_int (uint e)) (fsub 1 (fdiv (of_int (uint a)) 255)))
                     (fmul (of_int (uint c)) (fdiv (of_int (uint a)) 255))\<rfloor>"
    and "\<lfloor>fadd (fmul (of_int (uint e)) (fsub 1 (fdiv (of_int (uint a)) 255)))
                     (fmul (of_int (uint c)) (fdiv (of_int (uint a)) 255))\<rfloor> < 256"
proof -
  let ?al = "fdiv (of_int (uint a)) 255"
  let ?s = "fadd (fmul (of_int (uint e)) (fsub 1 ?al)) (fmul (of_int (uint c)) ?al)"
  note re = byte_rat_range[of e] and rc = byte_rat_range[of c] and ra = alpha_range[of a]
  have s: "0 \<le> ?s" "?s < 256"
    using blend_sum_range[of "of_int (uint e)" "of_int (uint c)" ?al] re rc ra by (simp_all del: of_int_uint)
  show "blend_channel e c ?al = Inr \<lfloor>?s\<rfloor>"
    by (simp add: blend_channel_def bind_err_def float_of_byte float_of_int_one py_int_small[OF s] del: of_int_uint)
  show "0 \<le> \<lfloor>?s\<rfloor>" using s(1) by (simp del: of_int_uint)
  show "\<lfloor>?s\<rfloor> < 256" using s(2) by (simp add: floor_less_iff del: of_int_uint)
qed

lemma blend_channel_opaque:
  fixes e c :: byte
  shows "blend_channel e c (fdiv (of_int (uint (255 :: byte))) 255) = Inr (uint c)"
proof -
  have u: "uint (255 :: byte) = 255" by (simp del: of_int_uint)
  have al: "fdiv (of_int (uint (255 :: byte))) 255 = 1" by (simp add: fdiv_def fl_one del: of_int_uint)
  have "uint c < 2 ^ 8" using uint_bounded[of c] by (simp del: of_int_uint)
  then have "\<bar>uint c\<bar> < 2 ^ 53" by (simp del: of_int_uint)
  then have c: "fl (of_int (uint c)) = of_int (uint c)" by (rule fl_of_int)
  have "fadd (fmul (of_int (uint e)) (fsub 1 1)) (fmul (of_int (uint c)) 1) = of_int (uint c)"
    by (simp add: fadd_def fmul_def fsub_def fl_zero c del: of_int_uint)
  then show ?thesis using blend_channel_eq(1)[of e c 255] unfolding al by (simp del: of_int_uint)
qed

section \<open>Properties of \<^verbatim>\<open>draw_triangle\<close>\<close>

lemma update4_conv:
  assumes "n + 4 \<le> length xs"
  shows "xs[n := a, n + 1 := b, n + 2 := c, n + 3 := d] = take n xs @ [a, b, c, d] @ drop (n + 4) xs"
proof (rule nth_equalityI)
  show "length (xs[n := a, n + 1 := b, n + 2 := c, n + 3 := d])
        = length (take n xs @ [a, b, c, d] @ drop (n + 4) xs)"
    using assms by simp
next
  fix i
  assume "i < length (xs[n := a, n + 1 := b, n + 2 := c, n + 3 := d])"
  then have i: "i < length xs" by simp
  consider "i < n" | "i = n" | "i = n + 1" | "i = n + 2" | "i = n + 3" | "n + 4 \<le> i" by linarith
  then show "xs[n := a, n + 1 := b, n + 2 := c, n + 3 := d] ! i
             = (take n xs @ [a, b, c, d] @ drop (n + 4) xs) ! i"
  proof cases
    case 1 then show ?thesis using i assms by (simp add: nth_append)
  next
    case 2 then show ?thesis using i assms by (simp add: nth_append)
  next
    case 3 then show ?thesis using i assms by (simp add: nth_append)
  next
    case 4 then show ?thesis using i assms by (simp add: nth_append)
  next
    case 5 then show ?thesis using i assms by (simp add: nth_append)
  next
    case 6
    then obtain k where k: "i = n + 4 + k" using le_Suc_ex by blast
    show ?thesis unfolding k using i assms k by (simp add: nth_append)
  qed
qed

lemma word_max_uint: "word_of_int (max (uint (a :: byte)) (uint b)) = max a b"
  by (simp add: max_def word_le_def)

lemma get_item_nat: "n < length xs \<Longrightarrow> get_item xs (int n) = Inr (xs ! n)"
  by (simp add: get_item_def)

lemma set_item_nat:
  "n < length xs \<Longrightarrow> 0 \<le> v \<Longrightarrow> v < 256 \<Longrightarrow> set_item xs (int n) v = Inr (xs[n := word_of_int v])"
  by (simp add: set_item_def)

lemma blend_channel_value:
  "blend_channel e c (fdiv (of_int (uint a)) 255) = Inr (blend_value e c a)"
  "0 \<le> blend_value e c a" "blend_value e c a < 256"
  unfolding blend_value_def Let_def by (rule blend_channel_eq)+

lemma blend_pixel_nat:
  assumes n: "n + 4 \<le> length pixels" and c: "length color = 4"
    and idx: "(y * width + x) * 4 = int n"
  shows "blend_pixel width color y pixels x
         = Inr (take n pixels @ blended (take 4 (drop n pixels)) color @ drop (n + 4) pixels)"
proof -
  let ?ex = "take 4 (drop n pixels)"
  have ex: "slice pixels (int n) (int n + 4) = ?ex" by (rule slice_nat4)
  have lex: "length ?ex = 4" using n by simp
  have gc: "get_item color 0 = Inr (color ! 0)" "get_item color 1 = Inr (color ! 1)"
    "get_item color 2 = Inr (color ! 2)" "get_item color 3 = Inr (color ! 3)"
    using c by (simp_all add: get_item_def)
  have ge: "get_item ?ex 0 = Inr (?ex ! 0)" "get_item ?ex 1 = Inr (?ex ! 1)"
    "get_item ?ex 2 = Inr (?ex ! 2)" "get_item ?ex 3 = Inr (?ex ! 3)"
    using lex by (simp_all add: get_item_def del: length_take)
  define w0 :: byte where "w0 = word_of_int (blend_value (?ex ! 0) (color ! 0) (color ! 3))"
  define w1 :: byte where "w1 = word_of_int (blend_value (?ex ! 1) (color ! 1) (color ! 3))"
  define w2 :: byte where "w2 = word_of_int (blend_value (?ex ! 2) (color ! 2) (color ! 3))"
  have i: "int n + 1 = int (n + 1)" "int n + 2 = int (n + 2)" "int n + 3 = int (n + 3)" by simp_all
  have s0: "set_item pixels (int n) (blend_value (?ex ! 0) (color ! 0) (color ! 3))
            = Inr (pixels[n := w0])"
    unfolding w0_def using n by (intro set_item_nat blend_channel_value) simp
  have s1: "set_item (pixels[n := w0]) (int n + 1) (blend_value (?ex ! 1) (color ! 1) (color ! 3))
            = Inr (pixels[n := w0, n + 1 := w1])"
    unfolding w1_def i using n by (intro set_item_nat blend_channel_value) simp
  have s2: "set_item (pixels[n := w0, n + 1 := w1]) (int n + 2)
              (blend_value (?ex ! 2) (color ! 2) (color ! 3))
            = Inr (pixels[n := w0, n + 1 := w1, n + 2 := w2])"
    unfolding w2_def i using n by (intro set_item_nat blend_channel_value) simp
  have m: "0 \<le> max (uint (?ex ! 3)) (uint (color ! 3))"
          "max (uint (?ex ! 3)) (uint (color ! 3)) < 256"
    using uint_bounded[of "?ex ! 3"] uint_bounded[of "color ! 3"]
          uint_ge_0[of "?ex ! 3"] uint_ge_0[of "color ! 3"]
    by (simp_all add: max_def del: uint_ge_0)
  have s3: "set_item (pixels[n := w0, n + 1 := w1, n + 2 := w2]) (int n + 3)
              (max (uint (?ex ! 3)) (uint (color ! 3)))
            = Inr (pixels[n := w0, n + 1 := w1, n + 2 := w2, n + 3 := max (?ex ! 3) (color ! 3)])"
    unfolding i using n set_item_nat[OF _ m, of "n + 3" "pixels[n := w0, n + 1 := w1, n + 2 := w2]"]
    by (simp add: word_max_uint)
  have "blend_pixel width color y pixels x
        = Inr (pixels[n := w0, n + 1 := w1, n + 2 := w2, n + 3 := max (?ex ! 3) (color ! 3)])"
    unfolding blend_pixel_def Let_def idx ex
    by (simp only: bind_err_def gc ge float_of_byte blend_channel_value s0 s1 s2 s3 sum.case)
  also have "pixels[n := w0, n + 1 := w1, n + 2 := w2, n + 3 := max (?ex ! 3) (color ! 3)]
             = take n pixels @ [w0, w1, w2, max (?ex ! 3) (color ! 3)] @ drop (n + 4) pixels"
    by (rule update4_conv[OF n])
  finally show ?thesis by (simp only: blended_def w0_def w1_def w2_def)
qed

lemma length_blended: "length (blended existing color) = 4"
  by (simp add: blended_def)

lemma blend_pixel_put:
  fixes x y width height :: int
  assumes "0 \<le> x" "x < width" "0 \<le> y" "y < height"
    and "length pixels = 4 * (nat width * nat height)" and "length color = 4"
  shows "blend_pixel width color y pixels x
         = Inr (put_pixel width (blended (pixel_at width pixels x y) color) pixels (x, y))"
proof -
  let ?n = "4 * (nat y * nat width + nat x)"
  note i = pixel_index_nat[OF assms(1-4)]
  have n: "?n + 4 \<le> length pixels" using i(2) assms(5) by simp
  show ?thesis
    unfolding blend_pixel_nat[OF n assms(6) i(1)] put_pixel_eq[OF assms(1-5)]
      pixel_at_eq[OF assms(1-4)] ..
qed

text \<open>The loop body of \<^verbatim>\<open>draw_triangle\<close> at one coordinate.\<close>

lemma fold_blend:
  fixes width height :: int
  assumes "\<forall>p \<in> set cs. 0 \<le> fst p \<and> fst p < width \<and> 0 \<le> snd p \<and> snd p < height"
    and "distinct cs"
    and "length pixels = 4 * (nat width * nat height)" and "length color = 4"
  shows "\<exists>pixels'.
           fold_err (\<lambda>px p. blend_pixel width color (snd p) px (fst p)) pixels cs = Inr pixels'
         \<and> length pixels' = length pixels
         \<and> (\<forall>x y. 0 \<le> x \<and> x < width \<and> 0 \<le> y \<and> y < height \<longrightarrow>
               pixel_at width pixels' x y
               = (if (x, y) \<in> set cs then blended (pixel_at width pixels x y) color
                  else pixel_at width pixels x y))"
  using assms(1-3)
proof (induction cs arbitrary: pixels)
  case Nil
  show ?case by simp
next
  case (Cons p cs)
  obtain a b where p: "p = (a, b)" by (cases p)
  with Cons.prems have r: "0 \<le> a" "a < width" "0 \<le> b" "b < height" by simp_all
  let ?c = "blended (pixel_at width pixels a b) color"
  let ?px1 = "put_pixel width ?c pixels (a, b)"
  have step: "blend_pixel width color b pixels a = Inr ?px1"
    by (rule blend_pixel_put[OF r Cons.prems(3) assms(4)])
  have l1: "length ?px1 = length pixels"
    by (rule put_pixel_length[OF r Cons.prems(3) length_blended])
  have "\<forall>p \<in> set cs. 0 \<le> fst p \<and> fst p < width \<and> 0 \<le> snd p \<and> snd p < height"
    using Cons.prems(1) by simp
  moreover have "distinct cs" using Cons.prems(2) by simp
  moreover have "length ?px1 = 4 * (nat width * nat height)" using l1 Cons.prems(3) by simp
  ultimately obtain pixels' where
    f: "fold_err (\<lambda>px p. blend_pixel width color (snd p) px (fst p)) ?px1 cs = Inr pixels'"
    and l: "length pixels' = length ?px1"
    and c: "\<And>x y. 0 \<le> x \<Longrightarrow> x < width \<Longrightarrow> 0 \<le> y \<Longrightarrow> y < height \<Longrightarrow>
               pixel_at width pixels' x y
               = (if (x, y) \<in> set cs then blended (pixel_at width ?px1 x y) color
                  else pixel_at width ?px1 x y)"
    using Cons.IH[of ?px1] by blast
  have notin: "(a, b) \<notin> set cs" using Cons.prems(2) p by simp
  have "fold_err (\<lambda>px p. blend_pixel width color (snd p) px (fst p)) pixels (p # cs) = Inr pixels'"
    by (simp add: p step f)
  moreover have "length pixels' = length pixels" using l l1 by simp
  moreover have "pixel_at width pixels' x y
               = (if (x, y) \<in> set (p # cs) then blended (pixel_at width pixels x y) color
                  else pixel_at width pixels x y)"
    if xy: "0 \<le> x" "x < width" "0 \<le> y" "y < height" for x y
  proof -
    note pp = pixel_at_put_pixel[OF r Cons.prems(3)
        length_blended[of "pixel_at width pixels a b" color] xy]
    show ?thesis
    proof (cases "x = a \<and> y = b")
      case True
      then show ?thesis using c[OF xy] pp notin p by simp
    next
      case False
      then show ?thesis using c[OF xy] pp p by auto
    qed
  qed
  ultimately show ?case by blast
qed

lemma fold_err_append:
  "fold_err f s (xs @ ys) = (case fold_err f s xs of Inl e \<Rightarrow> Inl e | Inr s' \<Rightarrow> fold_err f s' ys)"
  by (induction xs arbitrary: s) (auto split: sum.splits)

lemma fold_err_map: "fold_err f s (map g xs) = fold_err (\<lambda>s x. f s (g x)) s xs"
  by (induction xs arbitrary: s) (auto split: sum.splits)

lemma set_py_range: "x \<in> set (py_range a b) \<longleftrightarrow> a \<le> x \<and> x < b"
  by (auto simp: py_range_def)

lemma distinct_py_range: "distinct (py_range a b)"
  by (simp add: py_range_def)

lemma row_span_Inr:
  assumes "row_span width p0 p1 p2 y = Inr xs"
  shows "distinct xs \<and> (\<forall>x \<in> set xs. 0 \<le> x \<and> x < width)"
  using assms
  by (auto simp: row_span_def bind_err_def Let_def set_py_range distinct_py_range
      split: sum.splits if_splits)

lemma row_coords_props:
  "distinct (row_coords width height p0 p1 p2 y)"
  "p \<in> set (row_coords width height p0 p1 p2 y) \<Longrightarrow>
     snd p = y \<and> 0 \<le> fst p \<and> fst p < width \<and> 0 \<le> snd p \<and> snd p < height"
proof -
  show "distinct (row_coords width height p0 p1 p2 y)"
    using row_span_Inr[of width p0 p1 p2 y]
    by (auto simp: row_coords_def distinct_map inj_on_def split: sum.splits)
  assume "p \<in> set (row_coords width height p0 p1 p2 y)"
  then show "snd p = y \<and> 0 \<le> fst p \<and> fst p < width \<and> 0 \<le> snd p \<and> snd p < height"
    using row_span_Inr[of width p0 p1 p2 y]
    by (auto simp: row_coords_def split: sum.splits if_splits)
qed

lemma distinct_rows:
  "distinct ys \<Longrightarrow> distinct (concat (map (row_coords width height p0 p1 p2) ys))"
proof (induction ys)
  case Nil
  show ?case by simp
next
  case (Cons y ys)
  have "set (row_coords width height p0 p1 p2 y)
        \<inter> set (concat (map (row_coords width height p0 p1 p2) ys)) = {}"
  proof (rule ccontr)
    assume "\<not> ?thesis"
    then obtain p y' where "p \<in> set (row_coords width height p0 p1 p2 y)"
      "y' \<in> set ys" "p \<in> set (row_coords width height p0 p1 p2 y')" by auto
    then have "snd p = y" "snd p = y'" "y' \<in> set ys"
      using row_coords_props(2) by blast+
    with Cons.prems show False by auto
  qed
  with Cons show ?case by (simp add: row_coords_props(1))
qed

lemma triangle_coords_in_buffer:
  "p \<in> set (triangle_coords width height points) \<Longrightarrow>
     0 \<le> fst p \<and> fst p < width \<and> 0 \<le> snd p \<and> snd p < height"
  using row_coords_props(2)
  by (fastforce simp: triangle_coords_def Let_def split: if_splits)

lemma distinct_triangle_coords: "distinct (triangle_coords width height points)"
  by (simp add: triangle_coords_def Let_def distinct_rows distinct_py_range)

lemma scan_row_fold:
  assumes "scan_row width height p0 p1 p2 color pixels y = Inr pixels'"
  shows "fold_err (\<lambda>px p. blend_pixel width color (snd p) px (fst p)) pixels
           (row_coords width height p0 p1 p2 y) = Inr pixels'"
  using assms
  by (auto simp: scan_row_def row_coords_def bind_err_def fold_err_map split: sum.splits if_splits)

lemma scan_rows_fold:
  assumes "fold_err (scan_row width height p0 p1 p2 color) pixels ys = Inr pixels'"
  shows "fold_err (\<lambda>px p. blend_pixel width color (snd p) px (fst p)) pixels
           (concat (map (row_coords width height p0 p1 p2) ys)) = Inr pixels'"
  using assms
proof (induction ys arbitrary: pixels)
  case Nil
  then show ?case by simp
next
  case (Cons y ys)
  then obtain px1 where 1: "scan_row width height p0 p1 p2 color pixels y = Inr px1"
    and 2: "fold_err (scan_row width height p0 p1 p2 color) px1 ys = Inr pixels'"
    by (auto split: sum.splits)
  show ?case using scan_row_fold[OF 1] Cons.IH[OF 2] by (simp add: fold_err_append)
qed

lemma draw_triangle_fold:
  assumes "draw_triangle pixels width height points color = Inr pixels'"
  shows "fold_err (\<lambda>px p. blend_pixel width color (snd p) px (fst p)) pixels
           (triangle_coords width height points) = Inr pixels'"
proof -
  let ?pts = "sort_key snd points"
  have l: "\<not> length ?pts < 3"
    using assms by (auto simp: draw_triangle_def Let_def get_item_def bind_err_def)
  then have l3: "3 \<le> length ?pts" by simp
  have "2 < length ?pts" "0 < length ?pts" "1 < length ?pts" using l3 by linarith+
  from this[THEN get_item_nat]
  have g: "get_item ?pts 2 = Inr (?pts ! 2)" "get_item ?pts 0 = Inr (?pts ! 0)"
    "get_item ?pts 1 = Inr (?pts ! 1)"
    by simp_all
  show ?thesis
  proof (cases "snd (?pts ! 2) = snd (?pts ! 0)")
    case True
    then show ?thesis using assms l
      by (simp add: draw_triangle_def triangle_coords_def Let_def g bind_err_def del: length_sort)
  next
    case False
    then have "fold_err (scan_row width height (?pts ! 0) (?pts ! 1) (?pts ! 2) color) pixels
                 (py_range (snd (?pts ! 0)) (snd (?pts ! 2) + 1)) = Inr pixels'"
      using assms by (simp add: draw_triangle_def Let_def g bind_err_def del: length_sort)
    from scan_rows_fold[OF this] False l show ?thesis
      by (simp add: triangle_coords_def Let_def del: length_sort)
  qed
qed

lemma fold_blend_buffer:
  fixes width height :: int
  assumes "\<forall>p \<in> set cs. 0 \<le> fst p \<and> fst p < width \<and> 0 \<le> snd p \<and> snd p < height"
    and "distinct cs"
    and "length pixels = nat (width * height * 4)" and "length color = 4"
  shows "\<exists>pixels'.
           fold_err (\<lambda>px p. blend_pixel width color (snd p) px (fst p)) pixels cs = Inr pixels'
         \<and> length pixels' = length pixels
         \<and> (\<forall>x y. 0 \<le> x \<and> x < width \<and> 0 \<le> y \<and> y < height \<longrightarrow>
               pixel_at width pixels' x y
               = (if (x, y) \<in> set cs then blended (pixel_at width pixels x y) color
                  else pixel_at width pixels x y))"
proof (cases "cs = []")
  case True
  then show ?thesis by simp
next
  case False
  then obtain p where "p \<in> set cs" by (cases cs) auto
  with assms(1) have "0 \<le> fst p" "fst p < width" "0 \<le> snd p" "snd p < height" by auto
  from buffer_length[OF assms(3) this] show ?thesis
    by (rule fold_blend[OF assms(1,2) _ assms(4)])
qed

lemma draw_triangle_result:
  fixes width height :: int
  assumes "draw_triangle pixels width height points color = Inr pixels'"
    and "length pixels = nat (width * height * 4)" and "length color = 4"
  shows "length pixels' = length pixels"
    and "0 \<le> x \<Longrightarrow> x < width \<Longrightarrow> 0 \<le> y \<Longrightarrow> y < height \<Longrightarrow>
           pixel_at width pixels' x y
           = (if (x, y) \<in> set (triangle_coords width height points)
              then blended (pixel_at width pixels x y) color
              else pixel_at width pixels x y)"
proof -
  have "\<forall>p \<in> set (triangle_coords width height points).
          0 \<le> fst p \<and> fst p < width \<and> 0 \<le> snd p \<and> snd p < height"
    using triangle_coords_in_buffer by blast
  from fold_blend_buffer[OF this distinct_triangle_coords assms(2,3)]
  obtain px where
    f: "fold_err (\<lambda>px p. blend_pixel width color (snd p) px (fst p)) pixels
          (triangle_coords width height points) = Inr px"
    and l: "length px = length pixels"
    and c: "\<And>x y. 0 \<le> x \<Longrightarrow> x < width \<Longrightarrow> 0 \<le> y \<Longrightarrow> y < height \<Longrightarrow>
               pixel_at width px x y
               = (if (x, y) \<in> set (triangle_coords width height points)
                  then blended (pixel_at width pixels x y) color
                  else pixel_at width pixels x y)"
    by blast
  from draw_triangle_fold[OF assms(1)] f have e: "pixels' = px" by simp
  show "length pixels' = length pixels" using l e by simp
  show "pixel_at width pixels' x y
           = (if (x, y) \<in> set (triangle_coords width height points)
              then blended (pixel_at width pixels x y) color
              else pixel_at width pixels x y)"
    if "0 \<le> x" "x < width" "0 \<le> y" "y < height"
    using c[OF that] e by simp
qed

subsection \<open>The errors \<^verbatim>\<open>draw_triangle\<close> can raise\<close>

lemma edge_x_error: "edge_x y e = Inl err \<Longrightarrow> err = OverflowError"
  by (cases e)
     (auto simp: edge_x_def bind_err_def true_div_def float_of_int_def py_int_def Let_def
        split: if_splits sum.splits)

lemma x_intersections_step_error:
  "fold_err (\<lambda>acc e. bind_err (edge_x y e) (\<lambda>xs. Inr (acc @ xs))) acc edges = Inl err
     \<Longrightarrow> err = OverflowError"
proof (induction edges arbitrary: acc)
  case Nil
  then show ?case by simp
next
  case (Cons e edges)
  then show ?case
    using edge_x_error[of y e] by (auto simp: bind_err_def split: sum.splits)
qed

lemma row_span_error: "row_span width p0 p1 p2 y = Inl err \<Longrightarrow> err = OverflowError"
  using x_intersections_step_error[of y "[]" "[(p0, p1), (p1, p2), (p2, p0)]"]
  by (auto simp: row_span_def x_intersections_def bind_err_def Let_def split: sum.splits if_splits)

lemma scan_row_cases:
  fixes width height :: int
  assumes "length pixels = nat (width * height * 4)" and "length color = 4"
  shows "(\<exists>px. scan_row width height p0 p1 p2 color pixels y = Inr px
              \<and> length px = length pixels)
         \<or> (0 \<le> y \<and> y < height
             \<and> row_span width p0 p1 p2 y = Inl OverflowError
             \<and> scan_row width height p0 p1 p2 color pixels y = Inl OverflowError)"
proof (cases "y < 0 \<or> y \<ge> height")
  case True
  then show ?thesis by (simp add: scan_row_def)
next
  case False
  show ?thesis
  proof (cases "row_span width p0 p1 p2 y")
    case (Inl err)
    with row_span_error[OF Inl] False show ?thesis
      by (simp add: scan_row_def bind_err_def)
  next
    case (Inr xs)
    let ?cs = "map (\<lambda>x. (x, y)) xs"
    from row_span_Inr[OF Inr] False
    have "\<forall>p \<in> set ?cs. 0 \<le> fst p \<and> fst p < width \<and> 0 \<le> snd p \<and> snd p < height"
      and "distinct ?cs"
      by (auto simp: distinct_map inj_on_def)
    from fold_blend_buffer[OF this assms]
    obtain px where
      "fold_err (\<lambda>px p. blend_pixel width color (snd p) px (fst p)) pixels ?cs = Inr px"
      and "length px = length pixels" by blast
    then have "fold_err (blend_pixel width color y) pixels xs = Inr px"
      by (simp add: fold_err_map)
    with Inr False \<open>length px = length pixels\<close> show ?thesis
      by (simp add: scan_row_def bind_err_def)
  qed
qed

lemma scan_rows_cases:
  fixes width height :: int
  assumes "length pixels = nat (width * height * 4)" and "length color = 4"
  shows "(\<exists>px. fold_err (scan_row width height p0 p1 p2 color) pixels ys = Inr px
              \<and> length px = length pixels)
         \<or> ((\<exists>y \<in> set ys. 0 \<le> y \<and> y < height \<and> row_span width p0 p1 p2 y = Inl OverflowError)
            \<and> fold_err (scan_row width height p0 p1 p2 color) pixels ys = Inl OverflowError)"
  using assms(1)
proof (induction ys arbitrary: pixels)
  case Nil
  show ?case by simp
next
  case (Cons y ys)
  from scan_row_cases[OF Cons.prems assms(2), of p0 p1 p2 y]
  show ?case
  proof
    assume "\<exists>px. scan_row width height p0 p1 p2 color pixels y = Inr px
              \<and> length px = length pixels"
    then obtain px where s: "scan_row width height p0 p1 p2 color pixels y = Inr px"
      and l: "length px = length pixels" by blast
    from l Cons.prems have "length px = nat (width * height * 4)" by simp
    from Cons.IH[OF this] s l show ?thesis by auto
  next
    assume "0 \<le> y \<and> y < height
             \<and> row_span width p0 p1 p2 y = Inl OverflowError
             \<and> scan_row width height p0 p1 p2 color pixels y = Inl OverflowError"
    then show ?thesis by simp
  qed
qed

lemma sorted_points:
  assumes "3 \<le> length points"
  shows "get_item (sort_key snd points) 2 = Inr (sort_key snd points ! 2)"
    and "get_item (sort_key snd points) 0 = Inr (sort_key snd points ! 0)"
    and "get_item (sort_key snd points) 1 = Inr (sort_key snd points ! 1)"
proof -
  let ?pts = "sort_key snd points"
  have "length ?pts = length points" by simp
  with assms have "2 < length ?pts" "0 < length ?pts" "1 < length ?pts"
    by linarith+
  from this[THEN get_item_nat]
  show "get_item ?pts 2 = Inr (?pts ! 2)" "get_item ?pts 0 = Inr (?pts ! 0)"
    "get_item ?pts 1 = Inr (?pts ! 1)"
    by simp_all
qed

lemma draw_triangle_cases:
  fixes width height :: int
  assumes "length pixels = nat (width * height * 4)" and "length color = 4"
    and "3 \<le> length points"
  shows "(\<exists>px. draw_triangle pixels width height points color = Inr px
              \<and> length px = length pixels)
         \<or> ((\<exists>y. row_span width (sort_key snd points ! 0) (sort_key snd points ! 1)
                    (sort_key snd points ! 2) y = Inl OverflowError)
            \<and> draw_triangle pixels width height points color = Inl OverflowError)"
proof -
  let ?pts = "sort_key snd points"
  note g = sorted_points[OF assms(3)]
  show ?thesis
  proof (cases "snd (?pts ! 2) = snd (?pts ! 0)")
    case True
    then show ?thesis
      by (simp add: draw_triangle_def Let_def g bind_err_def del: length_sort)
  next
    case False
    then have "draw_triangle pixels width height points color
               = fold_err (scan_row width height (?pts ! 0) (?pts ! 1) (?pts ! 2) color) pixels
                   (py_range (snd (?pts ! 0)) (snd (?pts ! 2) + 1))"
      by (simp add: draw_triangle_def Let_def g bind_err_def del: length_sort)
    with scan_rows_cases[OF assms(1,2), of "?pts ! 0" "?pts ! 1" "?pts ! 2"
        "py_range (snd (?pts ! 0)) (snd (?pts ! 2) + 1)"]
    show ?thesis by auto
  qed
qed

lemma draw_triangle_errors:
  fixes width height :: int
  assumes "length pixels = nat (width * height * 4)" and "length color = 4"
    and "3 \<le> length points"
    and "draw_triangle pixels width height points color = Inl err"
  shows "err = OverflowError"
  using draw_triangle_cases[OF assms(1-3)] assms(4) by auto

subsection \<open>Vertices for which \<^verbatim>\<open>draw_triangle\<close> returns\<close>

lemma powi_double: "(2 :: rat) powi k + 2 powi k = 2 powi (k + 1)"
  using power_int_add[of "2 :: rat" k 1] by simp

lemma fl_abs_bound:
  assumes "\<bar>x\<bar> < 2 powi k" "- 1021 \<le> k"
  shows "\<bar>fl x\<bar> < 2 powi (k + 1)"
proof -
  have "\<bar>fl x - x\<bar> \<le> 2 powi (k - 54)" by (rule fl_error_bound[OF assms])
  moreover have "(2 :: rat) powi (k - 54) \<le> 2 powi k" by (intro powi2_mono) simp
  ultimately have "\<bar>fl x\<bar> < 2 powi k + 2 powi k" using assms(1) by linarith
  then show ?thesis by (simp only: powi_double)
qed

lemma abs_less_powi_mono:
  fixes x :: rat
  shows "\<bar>x\<bar> < 2 powi i \<Longrightarrow> i \<le> j \<Longrightarrow> \<bar>x\<bar> < 2 powi j"
  using powi2_mono[of i j] by linarith

lemma abs_mult_less_powi:
  fixes a b :: rat
  assumes "\<bar>a\<bar> < 2 powi i" "\<bar>b\<bar> < 2 powi j"
  shows "\<bar>a * b\<bar> < 2 powi (i + j)"
proof -
  have "\<bar>a\<bar> * \<bar>b\<bar> < 2 powi i * 2 powi j"
    using assms by (intro mult_strict_mono) simp_all
  then show ?thesis by (simp add: abs_mult power_int_add)
qed

lemma abs_add_less_powi:
  fixes a b :: rat
  assumes "\<bar>a\<bar> < 2 powi i" "\<bar>b\<bar> < 2 powi i"
  shows "\<bar>a + b\<bar> < 2 powi (i + 1)"
proof -
  have "\<bar>a + b\<bar> < 2 powi i + 2 powi i" using assms by linarith
  then show ?thesis by (simp only: powi_double)
qed

lemma of_int_abs_less_powi:
  assumes "\<bar>n\<bar> < 2 ^ k"
  shows "\<bar>of_int n :: rat\<bar> < 2 powi (int k)"
proof -
  have "\<bar>of_int n :: rat\<bar> = of_int \<bar>n\<bar>" by simp
  also have "\<dots> < of_int (2 ^ k)" using assms by (simp only: of_int_less_iff)
  also have "\<dots> = 2 powi (int k)" by (simp add: power_int_def)
  finally show ?thesis .
qed

lemma float_of_int_ok:
  assumes "\<bar>n\<bar> < 2 ^ 1002"
  shows "\<exists>f. float_of_int n = Inr f \<and> \<bar>f\<bar> < 2 powi 1003"
proof -
  have a: "\<bar>of_int n :: rat\<bar> < 2 powi 1002"
    using of_int_abs_less_powi[OF assms] by simp
  have b: "\<bar>fl (of_int n)\<bar> < 2 powi 1003"
    using fl_abs_bound[OF a] by simp
  then have "\<bar>fl (of_int n)\<bar> < 2 powi 1024" by (rule abs_less_powi_mono) simp
  then have "\<not> is_inf (fl (of_int n))" by (rule not_is_inf)
  with b show ?thesis by (simp add: float_of_int_def Let_def)
qed

lemma true_div_ok:
  assumes "b \<noteq> 0" "\<bar>a\<bar> \<le> \<bar>b\<bar>"
  shows "\<exists>t. true_div a b = Inr t \<and> \<bar>t\<bar> < 2 powi 2"
proof -
  have "\<bar>of_int a / of_int b :: rat\<bar> = of_int \<bar>a\<bar> / of_int \<bar>b\<bar>" by simp
  also have "\<dots> \<le> 1" using assms by (simp add: divide_le_eq)
  finally have "\<bar>of_int a / of_int b :: rat\<bar> < 2 powi 1" by simp
  from fl_abs_bound[OF this] have b: "\<bar>fl (of_int a / of_int b)\<bar> < 2 powi 2" by simp
  then have "\<bar>fl (of_int a / of_int b)\<bar> < 2 powi 1024" by (rule abs_less_powi_mono) simp
  then have "\<not> is_inf (fl (of_int a / of_int b))" by (rule not_is_inf)
  with b assms(1) show ?thesis by (simp add: true_div_def Let_def)
qed

lemma py_int_ok: "\<bar>x\<bar> < 2 powi 1024 \<Longrightarrow> \<exists>n. py_int x = Inr n"
  using not_is_inf[of x] by (simp add: py_int_def)

lemma edge_x_ok:
  assumes "\<bar>fst p1\<bar> \<le> 2 ^ 1000" "\<bar>fst p2\<bar> \<le> 2 ^ 1000"
  shows "\<exists>xs. edge_x y (p1, p2) = Inr xs"
proof (cases "snd p1 = snd p2 \<or> y < min (snd p1) (snd p2) \<or> y > max (snd p1) (snd p2)")
  case True
  then show ?thesis by (auto simp: edge_x_def)
next
  case False
  then have "snd p2 - snd p1 \<noteq> 0" "\<bar>y - snd p1\<bar> \<le> \<bar>snd p2 - snd p1\<bar>" by auto
  from true_div_ok[OF this] obtain t where
    t: "true_div (y - snd p1) (snd p2 - snd p1) = Inr t" and tb: "\<bar>t\<bar> < 2 powi 2" by blast
  have "\<bar>fst p2 - fst p1\<bar> < 2 ^ 1002" using assms by simp
  from float_of_int_ok[OF this] obtain d where
    d: "float_of_int (fst p2 - fst p1) = Inr d" and db: "\<bar>d\<bar> < 2 powi 1003" by blast
  have "\<bar>fst p1\<bar> < 2 ^ 1002" using assms by simp
  from float_of_int_ok[OF this] obtain x1 where
    x1: "float_of_int (fst p1) = Inr x1" and xb: "\<bar>x1\<bar> < 2 powi 1003" by blast
  have "\<bar>t * d\<bar> < 2 powi 1005" using abs_mult_less_powi[OF tb db] by simp
  from fl_abs_bound[OF this] have "\<bar>fmul t d\<bar> < 2 powi 1006" by (simp add: fmul_def)
  moreover have "\<bar>x1\<bar> < 2 powi 1006" using xb by (rule abs_less_powi_mono) simp
  ultimately have "\<bar>x1 + fmul t d\<bar> < 2 powi 1007"
    using abs_add_less_powi[of x1 1006 "fmul t d"] by simp
  from fl_abs_bound[OF this] have "\<bar>fadd x1 (fmul t d)\<bar> < 2 powi 1008" by (simp add: fadd_def)
  then have "\<bar>fadd x1 (fmul t d)\<bar> < 2 powi 1024" by (rule abs_less_powi_mono) simp
  from py_int_ok[OF this] obtain n where "py_int (fadd x1 (fmul t d)) = Inr n" ..
  with False t d x1 show ?thesis by (simp add: edge_x_def bind_err_def)
qed

lemma row_span_ok:
  assumes "\<bar>fst p0\<bar> \<le> 2 ^ 1000" "\<bar>fst p1\<bar> \<le> 2 ^ 1000" "\<bar>fst p2\<bar> \<le> 2 ^ 1000"
  shows "\<exists>xs. row_span width p0 p1 p2 y = Inr xs"
proof -
  from edge_x_ok[OF assms(1,2)] obtain a where a: "edge_x y (p0, p1) = Inr a" ..
  from edge_x_ok[OF assms(2,3)] obtain b where b: "edge_x y (p1, p2) = Inr b" ..
  from edge_x_ok[OF assms(3,1)] obtain c where c: "edge_x y (p2, p0) = Inr c" ..
  show ?thesis
    by (simp add: row_span_def x_intersections_def bind_err_def a b c Let_def)
qed

lemma draw_triangle_ok:
  fixes width height :: int
  assumes "length pixels = nat (width * height * 4)" and "length color = 4"
    and "3 \<le> length points" and "\<forall>p \<in> set points. \<bar>fst p\<bar> \<le> 2 ^ 1000"
  shows "\<exists>px. draw_triangle pixels width height points color = Inr px
             \<and> length px = length pixels"
proof -
  let ?pts = "sort_key snd points"
  have "length ?pts = length points" by simp
  with assms(3) have "0 < length ?pts" "1 < length ?pts" "2 < length ?pts" by linarith+
  then have "?pts ! 0 \<in> set ?pts" "?pts ! 1 \<in> set ?pts" "?pts ! 2 \<in> set ?pts"
    by (simp_all only: nth_mem)
  then have "?pts ! 0 \<in> set points" "?pts ! 1 \<in> set points" "?pts ! 2 \<in> set points"
    by simp_all
  with assms(4) have "\<bar>fst (?pts ! 0)\<bar> \<le> 2 ^ 1000" "\<bar>fst (?pts ! 1)\<bar> \<le> 2 ^ 1000"
    "\<bar>fst (?pts ! 2)\<bar> \<le> 2 ^ 1000" by blast+
  note ok = row_span_ok[OF this]
  from draw_triangle_cases[OF assms(1-3)] show ?thesis
  proof
    assume "\<exists>px. draw_triangle pixels width height points color = Inr px
              \<and> length px = length pixels"
    then show ?thesis .
  next
    assume "(\<exists>y. row_span width (?pts ! 0) (?pts ! 1) (?pts ! 2) y = Inl OverflowError)
            \<and> draw_triangle pixels width height points color = Inl OverflowError"
    then obtain y where "row_span width (?pts ! 0) (?pts ! 1) (?pts ! 2) y = Inl OverflowError"
      by blast
    with ok[of width y] show ?thesis by simp
  qed
qed

subsection \<open>A small triangle, traced by hand\<close>

lemma fl_minus_one: "fl (- 1) = - 1"
  using fl_of_int[of "- 1"] by simp

lemma is_inf_small: "\<not> is_inf 0" "\<not> is_inf 1" "\<not> is_inf (- 1)"
  by (rule not_is_inf, simp)+

lemma py_range_0_2: "py_range 0 2 = [0, 1]" "py_range 0 1 = [0]"
  by (simp_all add: py_range_def upto.simps)

lemma corner_edges:
  "edge_x 0 ((0, 0), (1, 0)) = Inr []"
  "edge_x 0 ((1, 0), (0, 1)) = Inr [1]"
  "edge_x 0 ((0, 1), (0, 0)) = Inr [0]"
  "edge_x 1 ((0, 0), (1, 0)) = Inr []"
  "edge_x 1 ((1, 0), (0, 1)) = Inr [0]"
  "edge_x 1 ((0, 1), (0, 0)) = Inr [0]"
  by (simp_all add: edge_x_def bind_err_def true_div_def float_of_int_def py_int_def Let_def
      fadd_def fmul_def fl_zero fl_one fl_minus_one is_inf_small)

lemma corner_rows:
  "row_span 2 (0, 0) (1, 0) (0, 1) 0 = Inr [0, 1]"
  "row_span 2 (0, 0) (1, 0) (0, 1) 1 = Inr [0]"
  by (simp_all add: row_span_def x_intersections_def bind_err_def corner_edges Let_def
      py_range_0_2)

lemma corner_sorted: "sort_key snd [(0, 0), (1, 0), (0, 1 :: int)] = [(0, 0), (1, 0), (0 :: int, 1)]"
  by simp

lemma corner_coords:
  "triangle_coords 2 2 [(0, 0), (1, 0), (0, 1)] = [(0, 0), (1, 0), (0, 1)]"
  unfolding triangle_coords_def corner_sorted Let_def
  by (simp add: row_coords_def corner_rows py_range_0_2)

lemma draw_circle_buffer_length:
  fixes width height :: int
  assumes "length pixels = nat (width * height * 4)" "length color = 4"
  shows "length (draw_circle pixels width height cx cy radius color) = length pixels"
proof (cases "circle_coords width height cx cy radius = []")
  case True
  then show ?thesis by (simp add: draw_circle_def)
next
  case False
  then obtain p where "p \<in> set (circle_coords width height cx cy radius)"
    by (cases "circle_coords width height cx cy radius") auto
  from circle_coords_in_buffer[OF this]
  have "0 \<le> fst p" "fst p < width" "0 \<le> snd p" "snd p < height" by simp_all
  from buffer_length[OF assms(1) this] show ?thesis
    by (rule draw_circle_length[OF _ assms(2)])
qed

lemma pixel_offsets:
  fixes x y width height :: int
  assumes "length pixels = nat (width * height * 4)"
    and "0 \<le> x" "x < width" "0 \<le> y" "y < height"
  shows "0 \<le> (y * width + x) * 4" and "(y * width + x) * 4 + 4 \<le> int (length pixels)"
proof -
  note i = pixel_index_nat[OF assms(2-5)]
  show "0 \<le> (y * width + x) * 4" unfolding i(1) by simp
  have "int (4 * (nat y * nat width + nat x) + 4) \<le> int (length pixels)"
    using i(2) buffer_length[OF assms] by (simp only: of_nat_le_iff)
  then show "(y * width + x) * 4 + 4 \<le> int (length pixels)" unfolding i(1) by simp
qed

lemma list4: "length xs = 4 \<Longrightarrow> xs = [xs ! 0, xs ! 1, xs ! 2, xs ! 3]"
  by (rule nth_equalityI) (auto simp: nth_Cons' numeral_eq_Suc less_Suc_eq)


lemma blend_value_opaque: "blend_value e c 255 = uint c"
  using blend_channel_value(1)[of e c 255] blend_channel_opaque[of e c] by simp

lemma byte_max_255: "max (e :: byte) 255 = 255"
proof -
  have "uint e < 2 ^ 8" using uint_bounded[of e] by simp
  then have "uint e \<le> uint (255 :: byte)" by simp
  then show ?thesis by (simp add: max_def word_le_def)
qed

lemma blended_opaque:
  assumes "length color = 4" "color ! 3 = 255"
  shows "blended existing color = color"
proof -
  have "blended existing color = [color ! 0, color ! 1, color ! 2, color ! 3]"
    by (simp add: blended_def assms(2) blend_value_opaque byte_max_255)
  with list4[OF assms(1)] show ?thesis by simp
qed

lemma sorted_snd_const:
  assumes "\<forall>p \<in> set points. snd p = v" "i < length points"
  shows "snd (sort_key snd points ! i) = v"
proof -
  have "i < length (sort_key snd points)" using assms(2) by simp
  then have "sort_key snd points ! i \<in> set (sort_key snd points)" by (rule nth_mem)
  then have "sort_key snd points ! i \<in> set points" by simp
  with assms(1) show ?thesis by blast
qed

text \<open>
  Claim C6. \<^verbatim>\<open>draw_triangle\<close> on three vertices whose smallest and largest \<open>y\<close> are equal
  returns without an error and leaves the buffer as it was, for every buffer, every
  width and height and every colour.
\<close>

theorem draw_triangle_degenerate:
  assumes "min (snd a) (min (snd b) (snd c)) = max (snd a) (max (snd b) (snd c))"
  shows "draw_triangle pixels width height [a, b, c] color = Inr pixels"
proof -
  let ?pts = "sort_key snd [a, b, c]"
  from assms have "snd b = snd a" "snd c = snd a" by linarith+
  then have all: "\<forall>p \<in> set [a, b, c]. snd p = snd a" by simp
  have "snd (?pts ! 2) = snd a" "snd (?pts ! 0) = snd a"
    by (rule sorted_snd_const[OF all], simp)+
  then have e: "snd (?pts ! 2) = snd (?pts ! 0)" by simp
  have "3 \<le> length [a, b, c]" by simp
  note g = sorted_points[OF this]
  show ?thesis
    unfolding draw_triangle_def Let_def g bind_err_def using e by simp
qed

theorem draw_triangle_degenerate_witness:
  "min (snd (0 :: int, 5 :: int)) (min (snd (7 :: int, 5 :: int)) (snd (- 2 :: int, 5 :: int)))
     = max (snd (0 :: int, 5 :: int)) (max (snd (7 :: int, 5 :: int)) (snd (- 2 :: int, 5 :: int)))
   \<and> draw_triangle [1, 2, 3, 4] 1 1 [(0, 5), (7, 5), (- 2, 5)] [9, 9, 9, 9] = Inr [1, 2, 3, 4]"
  using draw_triangle_degenerate[of "(0, 5)" "(7, 5)" "(- 2, 5)" "[1, 2, 3, 4]" 1 1 "[9, 9, 9, 9]"]
  by simp



text \<open>
  Claim C7. When \<^verbatim>\<open>draw_triangle\<close> returns and the colour has alpha 255, every pixel its
  innermost loop reached holds exactly the four bytes of the colour, whatever it held
  before; in particular when it was already opaque.
\<close>

theorem draw_triangle_opaque:
  fixes width height :: int
  assumes "draw_triangle pixels width height points color = Inr pixels'"
    and "length pixels = nat (width * height * 4)" and "length color = 4"
    and "color ! 3 = 255"
    and "(x, y) \<in> set (triangle_coords width height points)"
  shows "pixel_at width pixels' x y = color"
proof -
  from triangle_coords_in_buffer[OF assms(5)]
  have r: "0 \<le> x" "x < width" "0 \<le> y" "y < height" by simp_all
  from draw_triangle_result(2)[OF assms(1-3) r] assms(5)
  have "pixel_at width pixels' x y = blended (pixel_at width pixels x y) color" by simp
  then show ?thesis by (simp only: blended_opaque[OF assms(3,4)])
qed

theorem draw_triangle_opaque_witness:
  "\<exists>pixels'.
     draw_triangle (replicate 16 255) 2 2 [(0, 0), (1, 0), (0, 1)] [9, 8, 7, 255] = Inr pixels'
   \<and> length (replicate 16 (255 :: byte)) = nat (2 * 2 * 4)
   \<and> length [9, 8, 7, 255 :: byte] = 4
   \<and> [9, 8, 7, 255 :: byte] ! 3 = 255
   \<and> (0, 1) \<in> set (triangle_coords 2 2 [(0, 0), (1, 0), (0, 1)])
   \<and> pixel_at 2 (replicate 16 255) 0 1 ! 3 = 255
   \<and> pixel_at 2 pixels' 0 1 = [9, 8, 7, 255]"
proof -
  have l: "length (replicate 16 (255 :: byte)) = nat (2 * 2 * 4)" by simp
  have c: "length [9, 8, 7, 255 :: byte] = 4" by simp
  have a: "[9, 8, 7, 255 :: byte] ! 3 = 255" by simp
  have m: "(0, 1) \<in> set (triangle_coords 2 2 [(0, 0), (1, 0), (0, 1)])"
    by (simp add: corner_coords)
  have "3 \<le> length [(0, 0), (1, 0), (0, 1 :: int) :: int \<times> int]" by simp
  moreover have "\<forall>p \<in> set [(0, 0), (1, 0), (0, 1 :: int) :: int \<times> int]. \<bar>fst p\<bar> \<le> 2 ^ 1000"
    by simp
  ultimately obtain pixels' where
    d: "draw_triangle (replicate 16 255) 2 2 [(0, 0), (1, 0), (0, 1)] [9, 8, 7, 255]
        = Inr pixels'"
    using draw_triangle_ok[OF l c] by blast
  have p: "pixel_at 2 (replicate 16 (255 :: byte)) 0 1 ! 3 = 255"
    by (simp add: pixel_at_def slice_def slice_bound_def)
  from draw_triangle_opaque[OF d l c a m] d l c a m p show ?thesis
    by (intro exI[of _ pixels']) simp
qed

text \<open>
  Claim C3. On a buffer of \<open>width * height * 4\<close> bytes, every coordinate at which
  \<^verbatim>\<open>draw_circle\<close> or \<^verbatim>\<open>draw_triangle\<close> reaches its write lies in
  \<open>[0, width) \<times> [0, height)\<close> and its four bytes lie inside the buffer, wherever the
  centre and the vertices are and whatever the radius is. \<^verbatim>\<open>draw_circle\<close> is the
  sequence of its writes at these coordinates and leaves the buffer at its length;
  \<^verbatim>\<open>draw_triangle\<close> on three vertices never raises IndexError, and when it returns its
  result is the sequence of its writes at these coordinates.
\<close>

theorem drawing_within_buffer:
  fixes width height :: int
  assumes "length pixels = nat (width * height * 4)" and "length color = 4"
    and "length points = 3"
  shows "(\<forall>p \<in> set (circle_coords width height cx cy radius)
                \<union> set (triangle_coords width height points).
            0 \<le> fst p \<and> fst p < width \<and> 0 \<le> snd p \<and> snd p < height
          \<and> 0 \<le> (snd p * width + fst p) * 4
          \<and> (snd p * width + fst p) * 4 + 4 \<le> int (length pixels))
       \<and> draw_circle pixels width height cx cy radius color
           = foldl (put_pixel width color) pixels (circle_coords width height cx cy radius)
       \<and> length (draw_circle pixels width height cx cy radius color) = length pixels
       \<and> draw_triangle pixels width height points color \<noteq> Inl IndexError
       \<and> (\<forall>pixels'. draw_triangle pixels width height points color = Inr pixels' \<longrightarrow>
            fold_err (\<lambda>px p. blend_pixel width color (snd p) px (fst p)) pixels
              (triangle_coords width height points) = Inr pixels')"
proof -
  have "0 \<le> fst p \<and> fst p < width \<and> 0 \<le> snd p \<and> snd p < height
          \<and> 0 \<le> (snd p * width + fst p) * 4
          \<and> (snd p * width + fst p) * 4 + 4 \<le> int (length pixels)"
    if "p \<in> set (circle_coords width height cx cy radius)
              \<union> set (triangle_coords width height points)" for p
  proof -
    from that circle_coords_in_buffer[of p] triangle_coords_in_buffer[of p]
    have r: "0 \<le> fst p" "fst p < width" "0 \<le> snd p" "snd p < height" by auto
    from r pixel_offsets[OF assms(1) r] show ?thesis by simp
  qed
  moreover have "length (draw_circle pixels width height cx cy radius color) = length pixels"
    by (rule draw_circle_buffer_length[OF assms(1,2)])
  moreover have "draw_triangle pixels width height points color \<noteq> Inl IndexError"
    using draw_triangle_cases[OF assms(1,2), of points] assms(3) by auto
  moreover have "fold_err (\<lambda>px p. blend_pixel width color (snd p) px (fst p)) pixels
              (triangle_coords width height points) = Inr pixels'"
    if "draw_triangle pixels width height points color = Inr pixels'" for pixels'
    by (rule draw_triangle_fold[OF that])
  ultimately show ?thesis by (simp add: draw_circle_def)
qed

theorem drawing_within_buffer_witness:
  "length (replicate 16 (0 :: byte)) = nat (2 * 2 * 4)
   \<and> length [1, 2, 3, 4 :: byte] = 4
   \<and> length [(0, 0), (1, 0), (0, 1 :: int) :: int \<times> int] = 3
   \<and> (1, 1) \<in> set (circle_coords 2 2 0 0 5)
   \<and> (1 :: int) < 2
   \<and> (1 * 2 + 1) * 4 + 4 \<le> int (length (replicate 16 (0 :: byte)))
   \<and> (1, 0) \<in> set (triangle_coords 2 2 [(0, 0), (1, 0), (0, 1)])
   \<and> (0 * 2 + 1) * 4 + 4 \<le> int (length (replicate 16 (0 :: byte)))
   \<and> length (draw_circle (replicate 16 0) 2 2 0 0 5 [1, 2, 3, 4]) = length (replicate 16 (0 :: byte))
   \<and> draw_triangle (replicate 16 0) 2 2 [(0, 0), (1, 0), (0, 1)] [1, 2, 3, 4]
        \<noteq> Inl IndexError"
proof -
  have l: "length (replicate 16 (0 :: byte)) = nat (2 * 2 * 4)" by simp
  have c: "length [1, 2, 3, 4 :: byte] = 4" by simp
  have p: "length [(0, 0), (1, 0), (0, 1 :: int) :: int \<times> int] = 3" by simp
  have a: "(1, 1) \<in> set (circle_coords 2 2 0 0 5)" by (simp add: circle_coords_iff)
  have b: "(1, 0) \<in> set (triangle_coords 2 2 [(0, 0), (1, 0), (0, 1)])"
    by (simp add: corner_coords)
  note t = drawing_within_buffer[OF l c p, of 0 0 5]
  from t have q: "\<forall>p \<in> set (circle_coords 2 2 0 0 5)
                \<union> set (triangle_coords 2 2 [(0, 0), (1, 0), (0, 1)]).
            0 \<le> fst p \<and> fst p < 2 \<and> 0 \<le> snd p \<and> snd p < 2
          \<and> 0 \<le> (snd p * 2 + fst p) * 4
          \<and> (snd p * 2 + fst p) * 4 + 4 \<le> int (length (replicate 16 (0 :: byte)))"
    by blast
  from q a have "(snd (1 :: int, 1 :: int) * 2 + fst (1 :: int, 1 :: int)) * 4 + 4
                   \<le> int (length (replicate 16 (0 :: byte)))"
    by blast
  then have qa: "((1 :: int) * 2 + 1) * 4 + 4 \<le> int (length (replicate 16 (0 :: byte)))"
    by (simp only: fst_conv snd_conv)
  from q b have "(snd (1 :: int, 0 :: int) * 2 + fst (1 :: int, 0 :: int)) * 4 + 4
                   \<le> int (length (replicate 16 (0 :: byte)))"
    by blast
  then have qb: "((0 :: int) * 2 + 1) * 4 + 4 \<le> int (length (replicate 16 (0 :: byte)))"
    by (simp only: fst_conv snd_conv)
  from t have t3: "length (draw_circle (replicate 16 0) 2 2 0 0 5 [1, 2, 3, 4])
                   = length (replicate 16 (0 :: byte))"
    by blast
  from t have t4: "draw_triangle (replicate 16 0) 2 2 [(0, 0), (1, 0), (0, 1)] [1, 2, 3, 4]
                   \<noteq> Inl IndexError"
    by blast
  have "(1 :: int) < 2" by simp
  with l c p a b qa qb t3 t4 show ?thesis by blast
qed

text \<open>
  Claim C10. On a buffer of \<open>width * height * 4\<close> bytes, \<^verbatim>\<open>draw_circle\<close> and a returning
  \<^verbatim>\<open>draw_triangle\<close> leave a buffer of \<open>width * height * 4\<close> bytes. Every value
  \<^verbatim>\<open>draw_triangle\<close> computes for a channel lies in \<open>0..255\<close>, so that the assignment of a
  blended value to a byte of the buffer never raises ValueError.
\<close>

theorem drawing_preserves_buffer:
  fixes width height :: int
  assumes "length pixels = nat (width * height * 4)" and "length color = 4"
  shows "length (draw_circle pixels width height cx cy radius color) = nat (width * height * 4)
       \<and> (\<forall>pixels'. draw_triangle pixels width height points color = Inr pixels' \<longrightarrow>
            length pixels' = nat (width * height * 4))
       \<and> draw_triangle pixels width height points color \<noteq> Inl ValueError
       \<and> (\<forall>e c. \<exists>v. blend_channel e c (fdiv (of_int (uint (color ! 3))) 255) = Inr v
                   \<and> 0 \<le> v \<and> v < 256)"
proof -
  have 1: "length (draw_circle pixels width height cx cy radius color) = nat (width * height * 4)"
    using draw_circle_buffer_length[OF assms] assms(1) by simp
  have 2: "length pixels' = nat (width * height * 4)"
    if "draw_triangle pixels width height points color = Inr pixels'" for pixels'
    using draw_triangle_result(1)[OF that assms] assms(1) by simp
  have 3: "draw_triangle pixels width height points color \<noteq> Inl ValueError"
  proof (cases "3 \<le> length points")
    case True
    from draw_triangle_cases[OF assms True] show ?thesis by auto
  next
    case False
    then have "get_item (sort_key snd points) 2 = Inl IndexError"
      by (simp add: get_item_def)
    then show ?thesis by (simp add: draw_triangle_def bind_err_def)
  qed
  have 4: "\<exists>v. blend_channel e c (fdiv (of_int (uint (color ! 3))) 255) = Inr v
             \<and> 0 \<le> v \<and> v < 256" for e c
    using blend_channel_value[of e c "color ! 3"] by blast
  from 1 2 3 4 show ?thesis by blast
qed

theorem drawing_preserves_buffer_witness:
  "\<exists>pixels'.
     length (replicate 16 (7 :: byte)) = nat (2 * 2 * 4)
   \<and> length [255, 255, 255, 176 :: byte] = 4
   \<and> length (draw_circle (replicate 16 7) 2 2 1 1 3 [255, 255, 255, 176]) = 16
   \<and> draw_triangle (replicate 16 7) 2 2 [(0, 0), (1, 0), (0, 1)] [255, 255, 255, 176] = Inr pixels'
   \<and> length pixels' = 16
   \<and> draw_triangle (replicate 16 7) 2 2 [(0, 0), (1, 0), (0, 1)] [255, 255, 255, 176]
        \<noteq> Inl ValueError"
proof -
  have l: "length (replicate 16 (7 :: byte)) = nat (2 * 2 * 4)" by simp
  have c: "length [255, 255, 255, 176 :: byte] = 4" by simp
  have "3 \<le> length [(0, 0), (1, 0), (0, 1 :: int) :: int \<times> int]" by simp
  moreover have "\<forall>p \<in> set [(0, 0), (1, 0), (0, 1 :: int) :: int \<times> int]. \<bar>fst p\<bar> \<le> 2 ^ 1000"
    by simp
  ultimately obtain pixels' where
    d: "draw_triangle (replicate 16 7) 2 2 [(0, 0), (1, 0), (0, 1)] [255, 255, 255, 176]
        = Inr pixels'"
    using draw_triangle_ok[OF l c] by blast
  from drawing_preserves_buffer[OF l c, of 1 1 3 "[(0, 0), (1, 0), (0, 1)]"] d l c
  show ?thesis by (intro exI[of _ pixels']) simp
qed

section \<open>Properties of the composer and of the script\<close>

subsection \<open>The proportions of the icons\<close>

text \<open>
  \<^verbatim>\<open>int(n * c)\<close> for a small \<open>n\<close> and a decimal literal \<open>c = p / q\<close> below 1: the floor
  of the exact product, when that product is not within \<open>1/1024\<close> of an integer.
\<close>

lemma scaled_floor:
  fixes n k :: int and r :: rat
  assumes "0 \<le> n" "n < 256" "0 \<le> r" "r < 1" "0 \<le> k"
    and "of_int k + 1 / 1024 \<le> of_int n * r" "of_int n * r \<le> of_int k + 1 - 1 / 1024"
  shows "scaled n (fl r) = Inr k"
proof -
  define N :: rat where "N = of_int n"
  define K :: rat where "K = of_int k"
  define Q where "Q = N * r"
  define P where "P = N * fl r"
  have N: "0 \<le> N" "N \<le> 256" using assms(1,2) by (simp_all add: N_def)
  have K: "0 \<le> K" using assms(5) by (simp add: K_def)
  have "\<bar>n\<bar> < 2 ^ 53" using assms(1,2) by simp
  then have f: "float_of_int n = Inr N" unfolding N_def by (rule float_of_int_exact)
  have "\<bar>r\<bar> < 2 powi 0" using assms(3,4) by simp
  then have "\<bar>fl r - r\<bar> \<le> 2 powi (0 - 54)" by (intro fl_error_bound) simp_all
  moreover have "(2 :: rat) powi (0 - 54) \<le> 2 powi (- 30)" by (intro powi2_mono) simp
  moreover have p30: "(2 :: rat) powi (- 30) = 1 / 1073741824"
    by (simp add: power_int_minus_divide)
  ultimately have c: "\<bar>fl r - r\<bar> \<le> 1 / 1073741824" by linarith
  have "\<bar>P - Q\<bar> = N * \<bar>fl r - r\<bar>"
    unfolding P_def Q_def using N(1) by (simp add: abs_mult flip: right_diff_distrib)
  also have "\<dots> \<le> 256 * (1 / 1073741824)"
    using N c by (intro mult_mono) simp_all
  finally have x: "\<bar>P - Q\<bar> \<le> 1 / 4194304" by simp
  have q: "K + 1 / 1024 \<le> Q" "Q \<le> K + 1 - 1 / 1024"
    using assms(6,7) by (simp_all add: N_def K_def Q_def)
  have "N * r \<le> N * 1" using N(1) assms(4) by (intro mult_left_mono) simp_all
  then have q256: "Q \<le> 256" using N(2) by (simp add: Q_def)
  have "\<bar>P\<bar> < 512" using x q256 q(1) K by linarith
  moreover have "(2 :: rat) powi 9 = 512" by simp
  ultimately have "\<bar>P\<bar> < 2 powi 9" by simp
  then have "\<bar>fl P - P\<bar> \<le> 2 powi (9 - 54)" by (intro fl_error_bound) simp_all
  moreover have "(2 :: rat) powi (9 - 54) \<le> 2 powi (- 30)" by (intro powi2_mono) simp
  ultimately have y: "\<bar>fl P - P\<bar> \<le> 1 / 1073741824" using p30 by linarith
  have lo: "K \<le> fl P" and hi: "fl P < K + 1"
    using x y q by linarith+
  have fk: "\<lfloor>fl P\<rfloor> = k" using lo hi unfolding K_def by (simp add: floor_unique)
  have nonneg: "0 \<le> fl P" using lo K by linarith
  have "fl P < 257" using hi q q256 by linarith
  moreover have "(257 :: rat) < 2 powi 1024" by simp
  ultimately have "\<bar>fl P\<bar> < 2 powi 1024" using nonneg by linarith
  from not_is_inf[OF this] nonneg fk have "py_int (fl P) = Inr k"
    by (simp add: py_int_def)
  then show ?thesis by (simp add: scaled_def f bind_err_def fmul_def P_def)
qed

text \<open>The literals 0.47, 0.45, 0.42, 0.15, 0.2, 0.08, 0.7 and 0.23, as reduced fractions.\<close>

lemma radii_16:
  "scaled 16 (fl (47 / 100)) = Inr 7" "scaled 16 (fl (9 / 20)) = Inr 7"
  "scaled 16 (fl (21 / 50)) = Inr 6" "scaled 16 (fl (3 / 20)) = Inr 2"
  "scaled 16 (fl (1 / 5)) = Inr 3" "scaled 16 (fl (2 / 25)) = Inr 1"
  by (rule scaled_floor; simp)+

lemma radii_32:
  "scaled 32 (fl (47 / 100)) = Inr 15" "scaled 32 (fl (9 / 20)) = Inr 14"
  "scaled 32 (fl (21 / 50)) = Inr 13" "scaled 32 (fl (3 / 20)) = Inr 4"
  "scaled 32 (fl (1 / 5)) = Inr 6" "scaled 32 (fl (2 / 25)) = Inr 2"
  "scaled 6 (fl (7 / 10)) = Inr 4"
  by (rule scaled_floor; simp)+

lemma radii_48:
  "scaled 48 (fl (47 / 100)) = Inr 22" "scaled 48 (fl (9 / 20)) = Inr 21"
  "scaled 48 (fl (21 / 50)) = Inr 20" "scaled 48 (fl (3 / 20)) = Inr 7"
  "scaled 48 (fl (1 / 5)) = Inr 9" "scaled 48 (fl (2 / 25)) = Inr 3"
  "scaled 9 (fl (7 / 10)) = Inr 6" "scaled 48 (fl (23 / 100)) = Inr 11"
  by (rule scaled_floor; simp)+

lemma radii_128:
  "scaled 128 (fl (47 / 100)) = Inr 60" "scaled 128 (fl (9 / 20)) = Inr 57"
  "scaled 128 (fl (21 / 50)) = Inr 53" "scaled 128 (fl (3 / 20)) = Inr 19"
  "scaled 128 (fl (1 / 5)) = Inr 25" "scaled 128 (fl (2 / 25)) = Inr 10"
  "scaled 25 (fl (7 / 10)) = Inr 17" "scaled 128 (fl (23 / 100)) = Inr 29"
  by (rule scaled_floor; simp)+

subsection \<open>The drawing calls at the four sizes\<close>

lemma icon_shapes_16:
  "icon_shapes 16 =
     Inr [Circle 8 8 7 [0x1e, 0x40, 0xaf, 0xff], Circle 8 8 7 [0x3b, 0x82, 0xf6, 0xff],
          Circle 8 8 6 [0x1e, 0x40, 0xaf, 0xff], Circle 8 8 2 [0xef, 0x44, 0x44, 0xff]]"
  by (simp add: icon_shapes_def bind_err_def radii_16)

lemma icon_shapes_32:
  "icon_shapes 32 =
     Inr [Circle 16 16 15 [0x1e, 0x40, 0xaf, 0xff], Circle 16 16 14 [0x3b, 0x82, 0xf6, 0xff],
          Circle 16 16 13 [0x1e, 0x40, 0xaf, 0xff], Circle 16 16 4 [0xef, 0x44, 0x44, 0xff],
          Triangle [(10, 12), (10, 20), (22, 16)] [0xff, 0xff, 0xff, 0xb0]]"
  by (simp add: icon_shapes_def arrow_shapes_def bind_err_def radii_32)

lemma icon_shapes_48:
  "icon_shapes 48 =
     Inr [Circle 24 24 22 [0x1e, 0x40, 0xaf, 0xff], Circle 24 24 21 [0x3b, 0x82, 0xf6, 0xff],
          Circle 24 24 20 [0x1e, 0x40, 0xaf, 0xff], Circle 24 24 7 [0xef, 0x44, 0x44, 0xff],
          Triangle [(15, 18), (15, 30), (33, 24)] [0xff, 0xff, 0xff, 0xb0],
          Circle 11 11 2 [0x10, 0xb9, 0x81, 0xff], Circle 37 11 2 [0x10, 0xb9, 0x81, 0xff],
          Circle 11 37 2 [0x10, 0xb9, 0x81, 0xff], Circle 37 37 2 [0x10, 0xb9, 0x81, 0xff]]"
  by (simp add: icon_shapes_def arrow_shapes_def dot_shapes_def bind_err_def radii_48)

lemma icon_shapes_128:
  "icon_shapes 128 =
     Inr [Circle 64 64 60 [0x1e, 0x40, 0xaf, 0xff], Circle 64 64 57 [0x3b, 0x82, 0xf6, 0xff],
          Circle 64 64 53 [0x1e, 0x40, 0xaf, 0xff], Circle 64 64 19 [0xef, 0x44, 0x44, 0xff],
          Triangle [(39, 47), (39, 81), (89, 64)] [0xff, 0xff, 0xff, 0xb0],
          Circle 29 29 5 [0x10, 0xb9, 0x81, 0xff], Circle 99 29 5 [0x10, 0xb9, 0x81, 0xff],
          Circle 29 99 5 [0x10, 0xb9, 0x81, 0xff], Circle 99 99 5 [0x10, 0xb9, 0x81, 0xff]]"
  by (simp add: icon_shapes_def arrow_shapes_def dot_shapes_def bind_err_def radii_128)

lemma recording_shapes_16:
  "recording_shapes 16 =
     Inr [Circle 8 8 7 [0x7f, 0x1d, 0x1d, 0xff], Circle 8 8 7 [0xef, 0x44, 0x44, 0xff],
          Circle 8 8 6 [0x7f, 0x1d, 0x1d, 0xff], Circle 8 8 3 [0xff, 0x00, 0x00, 0xff]]"
  by (simp add: recording_shapes_def bind_err_def radii_16)

lemma recording_shapes_32:
  "recording_shapes 32 =
     Inr [Circle 16 16 15 [0x7f, 0x1d, 0x1d, 0xff], Circle 16 16 14 [0xef, 0x44, 0x44, 0xff],
          Circle 16 16 13 [0x7f, 0x1d, 0x1d, 0xff], Circle 16 16 6 [0xff, 0x00, 0x00, 0xff],
          Circle 16 16 2 [0xff, 0xff, 0xff, 0xff]]"
  by (simp add: recording_shapes_def indicator_shapes_def bind_err_def radii_32)

lemma recording_shapes_48:
  "recording_shapes 48 =
     Inr [Circle 24 24 22 [0x7f, 0x1d, 0x1d, 0xff], Circle 24 24 21 [0xef, 0x44, 0x44, 0xff],
          Circle 24 24 20 [0x7f, 0x1d, 0x1d, 0xff], Circle 24 24 9 [0xff, 0x00, 0x00, 0xff],
          Circle 24 24 3 [0xff, 0xff, 0xff, 0xff],
          Circle 11 11 2 [0xef, 0x44, 0x44, 0xff], Circle 37 11 2 [0xef, 0x44, 0x44, 0xff],
          Circle 11 37 2 [0xef, 0x44, 0x44, 0xff], Circle 37 37 2 [0xef, 0x44, 0x44, 0xff]]"
  by (simp add: recording_shapes_def indicator_shapes_def dot_shapes_def bind_err_def radii_48)

lemma recording_shapes_128:
  "recording_shapes 128 =
     Inr [Circle 64 64 60 [0x7f, 0x1d, 0x1d, 0xff], Circle 64 64 57 [0xef, 0x44, 0x44, 0xff],
          Circle 64 64 53 [0x7f, 0x1d, 0x1d, 0xff], Circle 64 64 25 [0xff, 0x00, 0x00, 0xff],
          Circle 64 64 10 [0xff, 0xff, 0xff, 0xff],
          Circle 29 29 5 [0xef, 0x44, 0x44, 0xff], Circle 99 29 5 [0xef, 0x44, 0x44, 0xff],
          Circle 29 99 5 [0xef, 0x44, 0x44, 0xff], Circle 99 99 5 [0xef, 0x44, 0x44, 0xff]]"
  by (simp add: recording_shapes_def indicator_shapes_def dot_shapes_def bind_err_def radii_128)

lemma icon_shapes_structure:
  assumes "icon_shapes sz = Inr shapes"
  shows "\<exists>r1 r2 r3 r4 points m r.
           shapes = [Circle (sz div 2) (sz div 2) r1 [0x1e, 0x40, 0xaf, 0xff],
                     Circle (sz div 2) (sz div 2) r2 [0x3b, 0x82, 0xf6, 0xff],
                     Circle (sz div 2) (sz div 2) r3 [0x1e, 0x40, 0xaf, 0xff],
                     Circle (sz div 2) (sz div 2) r4 [0xef, 0x44, 0x44, 0xff]]
                    @ (if 32 \<le> sz then [Triangle points [0xff, 0xff, 0xff, 0xb0]] else [])
                    @ (if 48 \<le> sz
                       then [Circle m m r [0x10, 0xb9, 0x81, 0xff],
                             Circle (sz - m) m r [0x10, 0xb9, 0x81, 0xff],
                             Circle m (sz - m) r [0x10, 0xb9, 0x81, 0xff],
                             Circle (sz - m) (sz - m) r [0x10, 0xb9, 0x81, 0xff]]
                       else [])"
  using assms
  by (auto simp: icon_shapes_def arrow_shapes_def dot_shapes_def bind_err_def Let_def
      split: sum.splits if_splits)

lemma recording_shapes_structure:
  assumes "recording_shapes sz = Inr shapes"
  shows "\<exists>r1 r2 r3 r4 r5 m r.
           shapes = [Circle (sz div 2) (sz div 2) r1 [0x7f, 0x1d, 0x1d, 0xff],
                     Circle (sz div 2) (sz div 2) r2 [0xef, 0x44, 0x44, 0xff],
                     Circle (sz div 2) (sz div 2) r3 [0x7f, 0x1d, 0x1d, 0xff],
                     Circle (sz div 2) (sz div 2) r4 [0xff, 0x00, 0x00, 0xff]]
                    @ (if 32 \<le> sz
                       then [Circle (sz div 2) (sz div 2) r5 [0xff, 0xff, 0xff, 0xff]] else [])
                    @ (if 48 \<le> sz
                       then [Circle m m r [0xef, 0x44, 0x44, 0xff],
                             Circle (sz - m) m r [0xef, 0x44, 0x44, 0xff],
                             Circle m (sz - m) r [0xef, 0x44, 0x44, 0xff],
                             Circle (sz - m) (sz - m) r [0xef, 0x44, 0x44, 0xff]]
                       else [])"
  using assms
  by (auto simp: recording_shapes_def indicator_shapes_def dot_shapes_def bind_err_def Let_def
      split: sum.splits if_splits)

lemma shapes_computed:
  assumes "sz \<in> set sizes"
  shows "\<exists>shapes. icon_shapes sz = Inr shapes" and "\<exists>shapes. recording_shapes sz = Inr shapes"
proof -
  from assms consider "sz = 16" | "sz = 32" | "sz = 48" | "sz = 128"
    by (auto simp: sizes_def)
  then show "\<exists>shapes. icon_shapes sz = Inr shapes"
    by cases (simp_all add: icon_shapes_16 icon_shapes_32 icon_shapes_48 icon_shapes_128)
  from assms consider "sz = 16" | "sz = 32" | "sz = 48" | "sz = 128"
    by (auto simp: sizes_def)
  then show "\<exists>shapes. recording_shapes sz = Inr shapes"
    by cases (simp_all add: recording_shapes_16 recording_shapes_32 recording_shapes_48
        recording_shapes_128)
qed

text \<open>
  Claim C8, amended. At each of the sizes 16, 32, 48 and 128 both composition routines
  compute their list of drawing calls. \<^verbatim>\<open>create_icon\<close> draws its four centred circles,
  then the play-arrow triangle exactly when \<open>size \<ge> 32\<close>, then the four corner dots
  exactly when \<open>size \<ge> 48\<close>. \<^verbatim>\<open>create_recording_icon\<close> draws its four centred circles,
  then a white centre dot (a circle, not a triangle) exactly when \<open>size \<ge> 32\<close>, then the
  four corner dots exactly when \<open>size \<ge> 48\<close>; it draws no triangle at any size.
\<close>

theorem composition_thresholds:
  assumes "sz \<in> set sizes"
  shows "\<exists>shapes rshapes.
           icon_shapes sz = Inr shapes \<and> recording_shapes sz = Inr rshapes
         \<and> (\<exists>r1 r2 r3 r4 points m r.
               shapes = [Circle (sz div 2) (sz div 2) r1 [0x1e, 0x40, 0xaf, 0xff],
                         Circle (sz div 2) (sz div 2) r2 [0x3b, 0x82, 0xf6, 0xff],
                         Circle (sz div 2) (sz div 2) r3 [0x1e, 0x40, 0xaf, 0xff],
                         Circle (sz div 2) (sz div 2) r4 [0xef, 0x44, 0x44, 0xff]]
                        @ (if 32 \<le> sz then [Triangle points [0xff, 0xff, 0xff, 0xb0]] else [])
                        @ (if 48 \<le> sz
                           then [Circle m m r [0x10, 0xb9, 0x81, 0xff],
                                 Circle (sz - m) m r [0x10, 0xb9, 0x81, 0xff],
                                 Circle m (sz - m) r [0x10, 0xb9, 0x81, 0xff],
                                 Circle (sz - m) (sz - m) r [0x10, 0xb9, 0x81, 0xff]]
                           else []))
         \<and> (\<exists>r1 r2 r3 r4 r5 m r.
               rshapes = [Circle (sz div 2) (sz div 2) r1 [0x7f, 0x1d, 0x1d, 0xff],
                          Circle (sz div 2) (sz div 2) r2 [0xef, 0x44, 0x44, 0xff],
                          Circle (sz div 2) (sz div 2) r3 [0x7f, 0x1d, 0x1d, 0xff],
                          Circle (sz div 2) (sz div 2) r4 [0xff, 0x00, 0x00, 0xff]]
                         @ (if 32 \<le> sz
                            then [Circle (sz div 2) (sz div 2) r5 [0xff, 0xff, 0xff, 0xff]]
                            else [])
                         @ (if 48 \<le> sz
                            then [Circle m m r [0xef, 0x44, 0x44, 0xff],
                                  Circle (sz - m) m r [0xef, 0x44, 0x44, 0xff],
                                  Circle m (sz - m) r [0xef, 0x44, 0x44, 0xff],
                                  Circle (sz - m) (sz - m) r [0xef, 0x44, 0x44, 0xff]]
                            else []))
         \<and> (list_ex is_triangle shapes \<longleftrightarrow> 32 \<le> sz)
         \<and> \<not> list_ex is_triangle rshapes"
proof -
  from shapes_computed[OF assms] obtain shapes rshapes where
    s: "icon_shapes sz = Inr shapes" and r: "recording_shapes sz = Inr rshapes" by blast
  note si = icon_shapes_structure[OF s] and ri = recording_shapes_structure[OF r]
  from si have ti: "list_ex is_triangle shapes \<longleftrightarrow> 32 \<le> sz"
    by (auto split: if_splits)
  from ri have tr: "\<not> list_ex is_triangle rshapes"
    by (auto split: if_splits)
  from s r si ri ti tr show ?thesis by blast
qed

theorem composition_thresholds_witness:
  "(48 :: int) \<in> set sizes
   \<and> (\<exists>shapes rshapes.
           icon_shapes 48 = Inr shapes \<and> recording_shapes 48 = Inr rshapes
         \<and> (list_ex is_triangle shapes \<longleftrightarrow> 32 \<le> (48 :: int))
         \<and> \<not> list_ex is_triangle rshapes)"
proof -
  have m: "(48 :: int) \<in> set sizes" by (simp add: sizes_def)
  from composition_thresholds[OF m] m show ?thesis by blast
qed

theorem composition_thresholds_counterexample:
  "(32 :: int) \<in> set sizes \<and> (32 :: int) \<ge> 32
   \<and> recording_shapes 32 =
       Inr [Circle 16 16 15 [0x7f, 0x1d, 0x1d, 0xff], Circle 16 16 14 [0xef, 0x44, 0x44, 0xff],
            Circle 16 16 13 [0x7f, 0x1d, 0x1d, 0xff], Circle 16 16 6 [0xff, 0x00, 0x00, 0xff],
            Circle 16 16 2 [0xff, 0xff, 0xff, 0xff]]
   \<and> \<not> list_ex is_triangle
         [Circle 16 16 15 [0x7f, 0x1d, 0x1d, 0xff], Circle 16 16 14 [0xef, 0x44, 0x44, 0xff],
          Circle 16 16 13 [0x7f, 0x1d, 0x1d, 0xff], Circle 16 16 6 [0xff, 0x00, 0x00, 0xff],
          Circle 16 16 2 [0xff, 0xff, 0xff, 0xff]]"
  by (simp add: recording_shapes_32 sizes_def)

subsection \<open>Running the script\<close>






end
